theory Spec2Isabelle
  imports Main "HOL-Library.Sublist" "HOL-Library.List_Lexorder" "HOL-Library.AList"
begin

section \<open>Python strings\<close>

text \<open>
  A Python \<^verbatim>\<open>str\<close> is a sequence of Unicode code points. A code point is
  modelled as a natural number and a string as the list of its code points, so that
  \<^const>\<open>length\<close> is Python's \<^verbatim>\<open>len\<close> and the lexicographic order on lists
  is Python's order on strings.
\<close>

type_synonym pystr = "nat list"

text \<open>
  The code points that \<^verbatim>\<open>str.split()\<close> and \<^verbatim>\<open>str.strip()\<close> treat as
  whitespace (CPython's \<^verbatim>\<open>_PyUnicode_IsWhitespace\<close>): U+0009..U+000D,
  U+001C..U+0020, U+0085, U+00A0, U+1680, U+2000..U+200A, U+2028, U+2029, U+202F,
  U+205F and U+3000.
\<close>

definition isspace :: "nat \<Rightarrow> bool" where
  "isspace c = ((9 \<le> c \<and> c \<le> 13) \<or> (28 \<le> c \<and> c \<le> 32) \<or> c = 133 \<or> c = 160
     \<or> c = 5760 \<or> (8192 \<le> c \<and> c \<le> 8202) \<or> c = 8232 \<or> c = 8233 \<or> c = 8239
     \<or> c = 8287 \<or> c = 12288)"

text \<open>
  \<^verbatim>\<open>s.split()\<close>: the maximal runs of non-whitespace code points, in order.
  \<open>cur\<close> is the word being read.
\<close>

fun split_from :: "pystr \<Rightarrow> pystr \<Rightarrow> pystr list" where
  "split_from cur [] = (if cur = [] then [] else [cur])"
| "split_from cur (c # cs) =
     (if isspace c then (if cur = [] then split_from [] cs else cur # split_from [] cs)
      else split_from (cur @ [c]) cs)"

definition py_split :: "pystr \<Rightarrow> pystr list" where
  "py_split s = split_from [] s"

text \<open>
  \<^verbatim>\<open>s.strip(chars)\<close> removes the leading and the trailing code points that are
  in \<open>chars\<close>.
\<close>

definition strip_chars :: "pystr \<Rightarrow> pystr \<Rightarrow> pystr" where
  "strip_chars chars s =
     rev (dropWhile (\<lambda>c. c \<in> set chars) (rev (dropWhile (\<lambda>c. c \<in> set chars) s)))"

text \<open>\<^verbatim>\<open>s.strip()\<close> removes leading and trailing whitespace.\<close>

definition py_strip :: "pystr \<Rightarrow> pystr" where
  "py_strip s = rev (dropWhile isspace (rev (dropWhile isspace s)))"

text \<open>\<^verbatim>\<open>' '.join(ws)\<close>: the words separated by one space (U+0020).\<close>

fun py_join :: "pystr list \<Rightarrow> pystr" where
  "py_join [] = []"
| "py_join [w] = w"
| "py_join (w # ws) = w @ 32 # py_join ws"

text \<open>\<^verbatim>\<open>s.startswith(p)\<close>.\<close>

definition startswith :: "pystr \<Rightarrow> pystr \<Rightarrow> bool" where
  "startswith s p = prefix p s"

text \<open>
  \<^verbatim>\<open>xs[lo:hi]\<close> for integers \<open>lo\<close> and \<open>hi\<close>: a negative index counts from the
  end, every index is clamped to \<open>0..len(xs)\<close>, and an empty range gives the empty list.
  A slice never raises.
\<close>

definition slice_index :: "int \<Rightarrow> int \<Rightarrow> nat" where
  "slice_index n i = nat (if i < 0 then max (i + n) 0 else min i n)"

definition slice :: "'a list \<Rightarrow> int \<Rightarrow> int \<Rightarrow> 'a list" where
  "slice xs lo hi =
     (let n = int (length xs); l = slice_index n lo; h = slice_index n hi
      in take (h - l) (drop l xs))"

section \<open>The trimmer\<close>

text \<open>
  \<^verbatim>\<open>str.lower\<close> follows the Unicode case tables of the Python runtime; it is a
  parameter \<open>lower\<close> of every function that calls it, and nothing is assumed of it.
  \<open>ascii_lower\<close> is what it does on ASCII text, for evaluating concrete inputs.
\<close>

definition ascii_lower :: "pystr \<Rightarrow> pystr" where
  "ascii_lower s = map (\<lambda>c. if 65 \<le> c \<and> c \<le> 90 then c + 32 else c) s"

text \<open>The argument of \<^verbatim>\<open>strip\<close> at lines 48 and 52: \<^verbatim>\<open>.,!?;:()[]{}"'\<close>.\<close>

definition punctuation :: pystr where
  "punctuation = [46, 44, 33, 63, 59, 58, 40, 41, 91, 93, 123, 125, 34, 39]"

text \<open>
  Lines 49 to 62: the loop over \<^verbatim>\<open>enumerate(words)\<close>. \<open>i\<close> is the index of
  the first word of the list still to visit; the result is \<^verbatim>\<open>occurrence_pos\<close>,
  \<open>-1\<close> when the loop ends without a \<^verbatim>\<open>break\<close>.
\<close>

fun find_occurrence :: "(pystr \<Rightarrow> pystr) \<Rightarrow> pystr \<Rightarrow> int \<Rightarrow> pystr list \<Rightarrow> int" where
  "find_occurrence lower occurrence_clean i [] = - 1"
| "find_occurrence lower occurrence_clean i (word # rest) =
     (let word_clean = strip_chars punctuation (lower word) in
      if word_clean = occurrence_clean then i
      else if \<bar>int (length word_clean) - int (length occurrence_clean)\<bar> \<le> 2 then
        (if startswith occurrence_clean word_clean \<or> startswith word_clean occurrence_clean
         then i
         else find_occurrence lower occurrence_clean (i + 1) rest)
      else find_occurrence lower occurrence_clean (i + 1) rest)"

text \<open>
  Lines 70 to 80: \<^verbatim>\<open>words_before\<close> and \<^verbatim>\<open>words_after\<close> as they stand at
  line 82, for a sentence of \<open>n\<close> words. \<^verbatim>\<open>//\<close> is floor division, as \<open>div\<close> is.
\<close>

definition context_sizes :: "int \<Rightarrow> int \<Rightarrow> int \<Rightarrow> int \<times> int" where
  "context_sizes n occurrence_pos max_words =
     (let words_before = min occurrence_pos (max_words div 2);
          words_after = min (n - occurrence_pos - 1) (max_words div 2);
          remaining = max_words - (words_before + words_after + 1)
      in if remaining > 0 then
           (let extra_before = min (occurrence_pos - words_before) (remaining div 2);
                extra_after = min (n - occurrence_pos - 1 - words_after) (remaining - extra_before)
            in (words_before + extra_before, words_after + extra_after))
         else (words_before, words_after))"

text \<open>Lines 83 and 84: \<^verbatim>\<open>(start, end)\<close>.\<close>

definition window :: "int \<Rightarrow> int \<Rightarrow> int \<Rightarrow> int \<times> int" where
  "window n occurrence_pos max_words =
     (case context_sizes n occurrence_pos max_words of
        (words_before, words_after) \<Rightarrow>
          (max 0 (occurrence_pos - words_before), min n (occurrence_pos + words_after + 1)))"

text \<open>
  Lines 26 to 86. The word limit is a Python \<^verbatim>\<open>int\<close>, of either sign. On two
  strings and an integer none of the operations used can raise (a slice clamps its
  bounds, and the only division is by 2), so the function is modelled as a total function
  that returns a string.
\<close>

definition trim_sentence_with_occurrence ::
  "(pystr \<Rightarrow> pystr) \<Rightarrow> pystr \<Rightarrow> pystr \<Rightarrow> int \<Rightarrow> pystr" where
  "trim_sentence_with_occurrence lower sentence occurrence_word max_words =
     (let words = py_split sentence in
      if int (length words) \<le> max_words then sentence
      else
        (let occurrence_clean = strip_chars punctuation (lower occurrence_word);
             occurrence_pos = find_occurrence lower occurrence_clean 0 words
         in if occurrence_pos = - 1 then py_join (slice words 0 max_words)
            else (case window (int (length words)) occurrence_pos max_words of
                    (start, stop) \<Rightarrow> py_join (slice words start stop))))"

section \<open>The extractor\<close>

text \<open>
  The annotator (\<^verbatim>\<open>nlp\<close>, the spaCy model) is outside the repository: it is
  a parameter \<open>nlp\<close> giving, for a text, its tokens in document order and its
  sentences. A sentence is a span of token indices \<open>sent_start..<sent_end\<close> with its
  text; \<^verbatim>\<open>token in sent\<close> holds when the token's index lies in the span.
\<close>

datatype pos = NOUN | VERB | ADJ | OTHER

text \<open>
  The fields of a token are spaCy's \<^verbatim>\<open>text\<close>, \<^verbatim>\<open>lemma_\<close>, \<^verbatim>\<open>pos_\<close>
  (every tag other than the three the code tests is \<open>OTHER\<close>), \<^verbatim>\<open>is_punct\<close>
  and \<^verbatim>\<open>is_space\<close>.
\<close>

record token =
  tok_text :: pystr
  tok_lemma :: pystr
  tok_pos :: pos
  is_punct :: bool
  is_space :: bool

record sentence =
  sent_start :: nat
  sent_end :: nat
  sent_text :: pystr

record doc =
  tokens :: "token list"
  sents :: "sentence list"

text \<open>
  A \<^verbatim>\<open>dict\<close> is an association list with distinct keys in insertion order.
  \<^verbatim>\<open>d[k]\<close> raises \<^verbatim>\<open>KeyError\<close> on a missing key; \<^verbatim>\<open>d[k] = v\<close>
  is \<^const>\<open>AList.update\<close>. An attribute missing on a value raises
  \<^verbatim>\<open>AttributeError\<close>.
\<close>

datatype py_error = KeyError | AttributeError

definition getitem :: "('k \<times> 'v) list \<Rightarrow> 'k \<Rightarrow> py_error + 'v" where
  "getitem d k = (case map_of d k of None \<Rightarrow> Inl KeyError | Some v \<Rightarrow> Inr v)"

text \<open>\<^verbatim>\<open>sorted(d.keys())\<close>; strings are ordered lexicographically by code point.\<close>

definition sorted_keys :: "(pystr \<times> 'v) list \<Rightarrow> pystr list" where
  "sorted_keys d = sort (map fst d)"

text \<open>Lines 143 to 147: the stripped text of the first sentence that contains token \<open>i\<close>.\<close>

fun find_sentence :: "sentence list \<Rightarrow> nat \<Rightarrow> pystr option" where
  "find_sentence [] i = None"
| "find_sentence (sent # rest) i =
     (if sent_start sent \<le> i \<and> i < sent_end sent then Some (py_strip (sent_text sent))
      else find_sentence rest i)"

text \<open>
  Lines 128 to 150, for token \<open>i\<close> of the document: \<open>None\<close> when the loop body
  ends at a \<^verbatim>\<open>continue\<close>, else (\<^verbatim>\<open>lemma\<close>, \<^verbatim>\<open>containing_sentence\<close>,
  \<^verbatim>\<open>token_text\<close>).
\<close>

definition qualify ::
  "(pystr \<Rightarrow> pystr) \<Rightarrow> doc \<Rightarrow> nat \<Rightarrow> token \<Rightarrow> (pystr \<times> pystr \<times> pystr) option" where
  "qualify lower d i tok =
     (if is_punct tok \<or> is_space tok then None
      else (let lemma = py_strip (lower (tok_lemma tok)) in
        if lemma = [] then None
        else (case find_sentence (sents d) i of
                None \<Rightarrow> None
              | Some containing_sentence \<Rightarrow>
                  if containing_sentence = [] then None
                  else Some (lemma, containing_sentence, tok_text tok))))"

text \<open>
  Lines 154 to 164 (and alike 166 to 176, 178 to 188): one category's lemma set,
  occurrence dict and seen-sentence dict, updated for one token.
\<close>

type_synonym tracker =
  "pystr set \<times> (pystr \<times> pystr list) list \<times> (pystr \<times> pystr set) list"

definition track ::
  "(pystr \<Rightarrow> pystr) \<Rightarrow> pystr \<Rightarrow> pystr \<Rightarrow> pystr \<Rightarrow> tracker \<Rightarrow> py_error + tracker" where
  "track lower lemma containing_sentence token_text t =
     (case t of (words, occurrences, original_sentences) \<Rightarrow>
       (let words = insert lemma words;
            fresh = (map_of original_sentences lemma = None);
            original_sentences =
              (if fresh then AList.update lemma {} original_sentences else original_sentences);
            occurrences = (if fresh then AList.update lemma [] occurrences else occurrences)
        in case getitem original_sentences lemma of
             Inl e \<Rightarrow> Inl e
           | Inr seen \<Rightarrow>
               if containing_sentence \<notin> seen then
                 (let original_sentences =
                        AList.update lemma (insert containing_sentence seen) original_sentences;
                      trimmed_phrase =
                        trim_sentence_with_occurrence lower containing_sentence token_text 20
                  in case getitem occurrences lemma of
                       Inl e \<Rightarrow> Inl e
                     | Inr phrases \<Rightarrow>
                         Inr (words,
                              AList.update lemma (phrases @ [trimmed_phrase]) occurrences,
                              original_sentences))
               else Inr (words, occurrences, original_sentences)))"

record state =
  nouns :: "pystr set"
  verbs :: "pystr set"
  adjectives :: "pystr set"
  verb_occurrences :: "(pystr \<times> pystr list) list"
  verb_original_sentences :: "(pystr \<times> pystr set) list"
  noun_occurrences :: "(pystr \<times> pystr list) list"
  noun_original_sentences :: "(pystr \<times> pystr set) list"
  adjective_occurrences :: "(pystr \<times> pystr list) list"
  adjective_original_sentences :: "(pystr \<times> pystr set) list"

text \<open>Lines 114 to 125.\<close>

definition initial_state :: state where
  "initial_state =
     \<lparr>nouns = {}, verbs = {}, adjectives = {},
      verb_occurrences = [], verb_original_sentences = [],
      noun_occurrences = [], noun_original_sentences = [],
      adjective_occurrences = [], adjective_original_sentences = []\<rparr>"

text \<open>Lines 128 to 188: the body of the loop, for token \<open>i\<close>.\<close>

definition process_token ::
  "(pystr \<Rightarrow> pystr) \<Rightarrow> doc \<Rightarrow> nat \<Rightarrow> token \<Rightarrow> state \<Rightarrow> py_error + state" where
  "process_token lower d i tok st =
     (case qualify lower d i tok of
        None \<Rightarrow> Inr st
      | Some (lemma, containing_sentence, token_text) \<Rightarrow>
          if tok_pos tok = NOUN then
            (case track lower lemma containing_sentence token_text
                    (nouns st, noun_occurrences st, noun_original_sentences st) of
               Inl e \<Rightarrow> Inl e
             | Inr (w, occ, orig) \<Rightarrow>
                 Inr (st\<lparr>nouns := w, noun_occurrences := occ, noun_original_sentences := orig\<rparr>))
          else if tok_pos tok = VERB then
            (case track lower lemma containing_sentence token_text
                    (verbs st, verb_occurrences st, verb_original_sentences st) of
               Inl e \<Rightarrow> Inl e
             | Inr (w, occ, orig) \<Rightarrow>
                 Inr (st\<lparr>verbs := w, verb_occurrences := occ, verb_original_sentences := orig\<rparr>))
          else if tok_pos tok = ADJ then
            (case track lower lemma containing_sentence token_text
                    (adjectives st, adjective_occurrences st, adjective_original_sentences st) of
               Inl e \<Rightarrow> Inl e
             | Inr (w, occ, orig) \<Rightarrow>
                 Inr (st\<lparr>adjectives := w, adjective_occurrences := occ,
                         adjective_original_sentences := orig\<rparr>))
          else Inr st)"

text \<open>Line 127: the loop over the tokens, the first of the list being token \<open>i\<close>.\<close>

fun process_tokens ::
  "(pystr \<Rightarrow> pystr) \<Rightarrow> doc \<Rightarrow> nat \<Rightarrow> token list \<Rightarrow> state \<Rightarrow> py_error + state" where
  "process_tokens lower d i [] st = Inr st"
| "process_tokens lower d i (tok # rest) st =
     (case process_token lower d i tok st of
        Inl e \<Rightarrow> Inl e
      | Inr st' \<Rightarrow> process_tokens lower d (Suc i) rest st')"

text \<open>
  One entry of an occurrence list, \<^verbatim>\<open>{key: word, "phrase": phrase}\<close>, where
  \<open>key\<close> is \<^verbatim>\<open>"noun"\<close>, \<^verbatim>\<open>"infinitive"\<close> or \<^verbatim>\<open>"adjective"\<close>.
\<close>

record occurrence =
  tag_key :: string
  tag :: pystr
  phrase :: pystr

text \<open>Lines 191 to 213: one occurrence dict flattened, its keys visited in \<open>keys\<close> order.\<close>

fun occurrences_list ::
  "string \<Rightarrow> (pystr \<times> pystr list) list \<Rightarrow> pystr list \<Rightarrow> py_error + occurrence list" where
  "occurrences_list key d [] = Inr []"
| "occurrences_list key d (k # keys) =
     (case getitem d k of
        Inl e \<Rightarrow> Inl e
      | Inr phrases \<Rightarrow>
          (case occurrences_list key d keys of
             Inl e \<Rightarrow> Inl e
           | Inr entries \<Rightarrow>
               Inr (map (\<lambda>p. \<lparr>tag_key = key, tag = k, phrase = p\<rparr>) phrases @ entries)))"

record result =
  r_nouns :: "pystr list"
  r_verbs :: "pystr list"
  r_adjectives :: "pystr list"
  r_verb_occurrences :: "occurrence list"
  r_noun_occurrences :: "occurrence list"
  r_adjective_occurrences :: "occurrence list"

definition empty_result :: result where
  "empty_result =
     \<lparr>r_nouns = [], r_verbs = [], r_adjectives = [],
      r_verb_occurrences = [], r_noun_occurrences = [], r_adjective_occurrences = []\<rparr>"

definition extract_pos_tags ::
  "(pystr \<Rightarrow> doc) \<Rightarrow> (pystr \<Rightarrow> pystr) \<Rightarrow> pystr \<Rightarrow> py_error + result" where
  "extract_pos_tags nlp lower text =
     (if text = [] \<or> py_strip text = [] then Inr empty_result
      else (let d = nlp text in
        case process_tokens lower d 0 (tokens d) initial_state of
          Inl e \<Rightarrow> Inl e
        | Inr st \<Rightarrow>
            (case occurrences_list ''infinitive'' (verb_occurrences st)
                    (sorted_keys (verb_occurrences st)) of
               Inl e \<Rightarrow> Inl e
             | Inr verb_occurrences_list \<Rightarrow>
            (case occurrences_list ''noun'' (noun_occurrences st)
                    (sorted_keys (noun_occurrences st)) of
               Inl e \<Rightarrow> Inl e
             | Inr noun_occurrences_list \<Rightarrow>
            (case occurrences_list ''adjective'' (adjective_occurrences st)
                    (sorted_keys (adjective_occurrences st)) of
               Inl e \<Rightarrow> Inl e
             | Inr adjective_occurrences_list \<Rightarrow>
                 Inr \<lparr>r_nouns = sorted_list_of_set (nouns st),
                      r_verbs = sorted_list_of_set (verbs st),
                      r_adjectives = sorted_list_of_set (adjectives st),
                      r_verb_occurrences = verb_occurrences_list,
                      r_noun_occurrences = noun_occurrences_list,
                      r_adjective_occurrences = adjective_occurrences_list\<rparr>)))))"

section \<open>The entry point\<close>

text \<open>
  \<^verbatim>\<open>json.loads\<close> is a parameter \<open>json_loads\<close>: \<open>None\<close> when it raises
  \<^verbatim>\<open>JSONDecodeError\<close>, else the value read. Of a number only whether it is
  nonzero is kept, which is all its truth value depends on.
\<close>

datatype json =
  JNull | JBool bool | JNumber bool | JString pystr | JArray "json list"
  | JObject "(pystr \<times> json) list"

text \<open>\<^verbatim>\<open>bool(v)\<close>, as \<^verbatim>\<open>not v\<close> reads it.\<close>

fun truthy :: "json \<Rightarrow> bool" where
  "truthy JNull = False"
| "truthy (JBool b) = b"
| "truthy (JNumber nonzero) = nonzero"
| "truthy (JString s) = (s \<noteq> [])"
| "truthy (JArray vs) = (vs \<noteq> [])"
| "truthy (JObject kvs) = (kvs \<noteq> [])"

text \<open>An ASCII literal as a Python string.\<close>

definition codepoints :: "string \<Rightarrow> pystr" where
  "codepoints s = map of_char s"

text \<open>
  What a run of \<^verbatim>\<open>main\<close> does: print the result and return (\<open>Printed\<close>),
  print \<^verbatim>\<open>{"error": msg}\<close> to the output stream and exit with status 1
  (\<open>Rejected\<close>), or catch an exception, print it to the error stream and exit with
  status 1 (\<open>Failed\<close>).
\<close>

datatype outcome = Printed result | Rejected string | Failed py_error

definition main ::
  "(pystr \<Rightarrow> json option) \<Rightarrow> (pystr \<Rightarrow> doc) \<Rightarrow> (pystr \<Rightarrow> pystr) \<Rightarrow> pystr \<Rightarrow> outcome" where
  "main json_loads nlp lower input_data =
     (if input_data = [] then Rejected ''No input provided''
      else
        (case (case json_loads input_data of
                 None \<Rightarrow> Inr (JString (py_strip input_data))
               | Some (JObject data) \<Rightarrow>
                   Inr (case map_of data (codepoints ''transcript'') of
                          None \<Rightarrow> JString []
                        | Some v \<Rightarrow> v)
               | Some _ \<Rightarrow> Inl AttributeError) of
           Inl e \<Rightarrow> Failed e
         | Inr transcript \<Rightarrow>
             if \<not> truthy transcript then Rejected ''Transcript is empty''
             else (case transcript of
                     JString text \<Rightarrow>
                       (case extract_pos_tags nlp lower text of
                          Inl e \<Rightarrow> Failed e
                        | Inr r \<Rightarrow> Printed r)
                   | _ \<Rightarrow> Failed AttributeError)))"

section \<open>Notions of the specification\<close>

text \<open>
  The two matching rules of the specification, on the normalized forms (lower-cased,
  punctuation stripped at both ends) of a word and of the target: they are equal; or
  their lengths differ by at most 2 and one is a prefix of the other.
\<close>

definition exact_match :: "(pystr \<Rightarrow> pystr) \<Rightarrow> pystr \<Rightarrow> pystr \<Rightarrow> bool" where
  "exact_match lower target word =
     (strip_chars punctuation (lower word) = strip_chars punctuation (lower target))"

definition fuzzy_match :: "(pystr \<Rightarrow> pystr) \<Rightarrow> pystr \<Rightarrow> pystr \<Rightarrow> bool" where
  "fuzzy_match lower target word =
     (let w = strip_chars punctuation (lower word);
          t = strip_chars punctuation (lower target)
      in \<bar>int (length w) - int (length t)\<bar> \<le> 2 \<and> (prefix w t \<or> prefix t w))"

text \<open>The index of the leftmost element that satisfies \<open>P\<close>, counted from \<open>i\<close>; \<open>-1\<close> if none does.\<close>

fun first_index :: "('a \<Rightarrow> bool) \<Rightarrow> int \<Rightarrow> 'a list \<Rightarrow> int" where
  "first_index P i [] = - 1"
| "first_index P i (x # xs) = (if P x then i else first_index P (i + 1) xs)"

text \<open>
  The position the specification describes: a first pass for the leftmost exact match,
  and a second pass for the leftmost fuzzy match only when the first finds nothing.
\<close>

definition two_pass_position :: "(pystr \<Rightarrow> pystr) \<Rightarrow> pystr \<Rightarrow> pystr list \<Rightarrow> int" where
  "two_pass_position lower target words =
     (let exact = first_index (exact_match lower target) 0 words
      in if exact \<noteq> - 1 then exact else first_index (fuzzy_match lower target) 0 words)"

text \<open>
  The sightings of a category \<open>c\<close> in a document: for each token of part of speech
  \<open>c\<close> that the loop does not skip, in document order, its lemma, the text of its
  sentence and its own text.
\<close>

definition sightings_from ::
  "(pystr \<Rightarrow> pystr) \<Rightarrow> doc \<Rightarrow> pos \<Rightarrow> nat \<Rightarrow> token list \<Rightarrow> (pystr \<times> pystr \<times> pystr) list" where
  "sightings_from lower d c i toks =
     List.map_filter (\<lambda>(i, tok). if tok_pos tok = c then qualify lower d i tok else None)
       (enumerate i toks)"

definition sightings ::
  "(pystr \<Rightarrow> pystr) \<Rightarrow> doc \<Rightarrow> pos \<Rightarrow> (pystr \<times> pystr \<times> pystr) list" where
  "sightings lower d c = sightings_from lower d c 0 (tokens d)"

text \<open>The (sentence, token text) pairs of one lemma among sightings.\<close>

definition sightings_of :: "pystr \<Rightarrow> (pystr \<times> pystr \<times> pystr) list \<Rightarrow> (pystr \<times> pystr) list" where
  "sightings_of l es = map snd (filter (\<lambda>e. fst e = l) es)"

text \<open>Of the pairs with the same first component, the first one only; order is kept.\<close>

fun first_seen_from :: "'a set \<Rightarrow> ('a \<times> 'b) list \<Rightarrow> ('a \<times> 'b) list" where
  "first_seen_from seen [] = []"
| "first_seen_from seen (e # es) =
     (if fst e \<in> seen then first_seen_from seen es
      else e # first_seen_from (insert (fst e) seen) es)"

definition first_seen :: "('a \<times> 'b) list \<Rightarrow> ('a \<times> 'b) list" where
  "first_seen es = first_seen_from {} es"

text \<open>The lemma sequence and the occurrence list of a category in a result.\<close>

fun lemmas_of :: "pos \<Rightarrow> result \<Rightarrow> pystr list" where
  "lemmas_of NOUN r = r_nouns r"
| "lemmas_of VERB r = r_verbs r"
| "lemmas_of ADJ r = r_adjectives r"
| "lemmas_of OTHER r = []"

fun occurrences_of :: "pos \<Rightarrow> result \<Rightarrow> occurrence list" where
  "occurrences_of NOUN r = r_noun_occurrences r"
| "occurrences_of VERB r = r_verb_occurrences r"
| "occurrences_of ADJ r = r_adjective_occurrences r"
| "occurrences_of OTHER r = []"

fun key_of :: "pos \<Rightarrow> string" where
  "key_of NOUN = ''noun''"
| "key_of VERB = ''infinitive''"
| "key_of ADJ = ''adjective''"
| "key_of OTHER = []"

text \<open>
  The occurrence list the specification describes for the sightings \<open>es\<close> of a
  category: the lemmas in sorted order and, within a lemma, one entry for each of its
  sentences in first-seen order, holding the sentence trimmed around the token first seen
  in it.
\<close>

definition grouped_occurrences ::
  "(pystr \<Rightarrow> pystr) \<Rightarrow> string \<Rightarrow> (pystr \<times> pystr \<times> pystr) list \<Rightarrow> occurrence list" where
  "grouped_occurrences lower key es =
     concat (map (\<lambda>k. map (\<lambda>(s, w). \<lparr>tag_key = key, tag = k,
                                    phrase = trim_sentence_with_occurrence lower s w 20\<rparr>)
                        (first_seen (sightings_of k es)))
               (sorted_list_of_set (fst ` set es)))"

text \<open>The three variables of the loop that belong to a category.\<close>

fun tracker_of :: "pos \<Rightarrow> state \<Rightarrow> tracker" where
  "tracker_of NOUN st = (nouns st, noun_occurrences st, noun_original_sentences st)"
| "tracker_of VERB st = (verbs st, verb_occurrences st, verb_original_sentences st)"
| "tracker_of ADJ st = (adjectives st, adjective_occurrences st, adjective_original_sentences st)"
| "tracker_of OTHER st = ({}, [], [])"

text \<open>
  The loop invariant of a category, \<open>es\<close> being its sightings so far: the lemma set
  holds their lemmas; the occurrence dict maps each of these lemmas to the trimmed
  phrases of its first-seen sentences, and the seen-sentence dict maps it to the set of
  its sentences; neither dict has another key.
\<close>

definition tracks :: "(pystr \<Rightarrow> pystr) \<Rightarrow> (pystr \<times> pystr \<times> pystr) list \<Rightarrow> tracker \<Rightarrow> bool" where
  "tracks lower es t =
     (case t of (words, occurrences, original_sentences) \<Rightarrow>
        words = fst ` set es
        \<and> distinct (map fst occurrences)
        \<and> (\<forall>l. map_of occurrences l =
              (if l \<in> fst ` set es
               then Some (map (\<lambda>(s, w). trim_sentence_with_occurrence lower s w 20)
                            (first_seen (sightings_of l es)))
               else None))
        \<and> (\<forall>l. map_of original_sentences l =
              (if l \<in> fst ` set es then Some (fst ` set (sightings_of l es)) else None)))"

section \<open>A fixture\<close>

text \<open>
  An annotated document for evaluating concrete runs: the text
  \<^verbatim>\<open>Der Hund jagt den Hund. Der kleine Hund rennt.\<close> in two sentences of six
  and five tokens, the noun \<open>Hund\<close> standing twice in the first.
\<close>

definition word_token :: "string \<Rightarrow> string \<Rightarrow> pos \<Rightarrow> token" where
  "word_token text lemma p =
     \<lparr>tok_text = codepoints text, tok_lemma = codepoints lemma, tok_pos = p,
      is_punct = False, is_space = False\<rparr>"

definition punct_token :: "string \<Rightarrow> token" where
  "punct_token text =
     \<lparr>tok_text = codepoints text, tok_lemma = codepoints text, tok_pos = OTHER,
      is_punct = True, is_space = False\<rparr>"

definition example_text :: pystr where
  "example_text = codepoints ''Der Hund jagt den Hund. Der kleine Hund rennt.''"

definition example_doc :: doc where
  "example_doc =
     \<lparr>tokens =
        [word_token ''Der'' ''der'' OTHER, word_token ''Hund'' ''Hund'' NOUN,
         word_token ''jagt'' ''jagen'' VERB, word_token ''den'' ''der'' OTHER,
         word_token ''Hund'' ''Hund'' NOUN, punct_token ''.'',
         word_token ''Der'' ''der'' OTHER, word_token ''kleine'' ''klein'' ADJ,
         word_token ''Hund'' ''Hund'' NOUN, word_token ''rennt'' ''rennen'' VERB,
         punct_token ''.''],
      sents =
        [\<lparr>sent_start = 0, sent_end = 6, sent_text = codepoints ''Der Hund jagt den Hund. ''\<rparr>,
         \<lparr>sent_start = 6, sent_end = 11, sent_text = codepoints ''Der kleine Hund rennt.''\<rparr>]\<rparr>"

text \<open>An annotator that knows this one text and finds no token in any other.\<close>

definition example_nlp :: "pystr \<Rightarrow> doc" where
  "example_nlp text = (if text = example_text then example_doc else \<lparr>tokens = [], sents = []\<rparr>)"

text \<open>\<^verbatim>\<open>json.loads\<close> on inputs that are not JSON: it raises.\<close>

definition json_loads_raising :: "pystr \<Rightarrow> json option" where
  "json_loads_raising s = None"

text \<open>
  \<^verbatim>\<open>json.loads\<close> reads more than JSON: it takes the constants \<^verbatim>\<open>NaN\<close>,
  \<^verbatim>\<open>Infinity\<close> and \<^verbatim>\<open>-Infinity\<close>, which the JSON grammar does not have,
  for floats. On the text \<^verbatim>\<open>NaN\<close> it returns the float \<^verbatim>\<open>nan\<close>, which is
  not zero; that is all this stand-in knows.
\<close>

definition json_loads_nan :: "pystr \<Rightarrow> json option" where
  "json_loads_nan s = (if s = codepoints ''NaN'' then Some (JNumber True) else None)"

text \<open>
  Three more inputs: a sentence of 21 one-letter words; a sentence of 22 words in which
  \<open>Kind\<close> stands at position 1 and \<open>Kinder\<close> at position 20; and the text of the
  document above with a space before and after it.
\<close>

definition letters_sentence :: pystr where
  "letters_sentence = codepoints ''a b c d e f g h i j k l m n o p q r s t u''"

definition kinder_sentence :: pystr where
  "kinder_sentence =
     codepoints
       ''Das Kind sagt, dass am Montag in der Schule neben dem alten Rathaus von Berlin sehr viele laute und lustige Kinder spielen.''"

definition padded_text :: pystr where
  "padded_text = codepoints '' Der Hund jagt den Hund. Der kleine Hund rennt. ''"

section \<open>Splitting, joining and slicing\<close>

lemma split_from_words:
  "\<lbrakk>w \<in> set (split_from cur s); \<forall>c\<in>set cur. \<not> isspace c\<rbrakk> \<Longrightarrow> w \<noteq> [] \<and> (\<forall>c\<in>set w. \<not> isspace c)"
proof (induction s arbitrary: cur)
  case Nil
  then show ?case by (cases "cur = []") simp_all
next
  case (Cons c s)
  show ?case
  proof (cases "isspace c")
    case True
    show ?thesis
    proof (cases "cur = []")
      case True
      with \<open>isspace c\<close> Cons.prems(1) have "w \<in> set (split_from [] s)" by simp
      then show ?thesis using Cons.IH [of "[]"] by simp
    next
      case False
      with \<open>isspace c\<close> Cons.prems(1) have "w = cur \<or> w \<in> set (split_from [] s)" by simp
      then show ?thesis using Cons.IH [of "[]"] Cons.prems(2) False by auto
    qed
  next
    case False
    with Cons.prems(1) have "w \<in> set (split_from (cur @ [c]) s)" by simp
    moreover have "\<forall>d\<in>set (cur @ [c]). \<not> isspace d" using False Cons.prems(2) by simp
    ultimately show ?thesis by (rule Cons.IH)
  qed
qed

lemma py_split_words:
  "w \<in> set (py_split s) \<Longrightarrow> w \<noteq> [] \<and> (\<forall>c\<in>set w. \<not> isspace c)"
  unfolding py_split_def using split_from_words [of w "[]" s] by simp

lemma split_from_word:
  "\<forall>c\<in>set w. \<not> isspace c \<Longrightarrow> split_from cur (w @ s) = split_from (cur @ w) s"
  by (induction w arbitrary: cur) auto

lemma isspace_32: "isspace 32"
  by (simp add: isspace_def)

lemma split_from_join:
  "\<lbrakk>\<forall>w\<in>set ws. w \<noteq> [] \<and> (\<forall>c\<in>set w. \<not> isspace c)\<rbrakk> \<Longrightarrow> split_from [] (py_join ws) = ws"
proof (induction ws rule: py_join.induct)
  case 1
  then show ?case by simp
next
  case (2 w)
  then show ?case using split_from_word [of w "[]" "[]"] by simp
next
  case (3 w v ws)
  have "split_from [] (w @ 32 # py_join (v # ws)) = split_from w (32 # py_join (v # ws))"
    using 3 split_from_word [of w "[]" "32 # py_join (v # ws)"] by simp
  also have "\<dots> = w # split_from [] (py_join (v # ws))"
    using 3 by (simp add: isspace_32)
  finally show ?case using 3 by simp
qed

lemma py_split_join:
  "\<forall>w\<in>set ws. w \<noteq> [] \<and> (\<forall>c\<in>set w. \<not> isspace c) \<Longrightarrow> py_split (py_join ws) = ws"
  unfolding py_split_def by (rule split_from_join)

lemma slice_in_range:
  "\<lbrakk>0 \<le> lo; lo \<le> hi; hi \<le> int (length xs)\<rbrakk>
   \<Longrightarrow> slice xs lo hi = take (nat (hi - lo)) (drop (nat lo) xs)"
  by (simp add: slice_def slice_index_def Let_def nat_diff_distrib)

lemma find_occurrence_Cons:
  "find_occurrence lower (strip_chars punctuation (lower target)) i (word # rest) =
     (if exact_match lower target word \<or> fuzzy_match lower target word then i
      else find_occurrence lower (strip_chars punctuation (lower target)) (i + 1) rest)"
  by (simp add: exact_match_def fuzzy_match_def startswith_def Let_def)

lemma find_occurrence_first_index:
  "find_occurrence lower (strip_chars punctuation (lower target)) i ws =
     first_index (\<lambda>w. exact_match lower target w \<or> fuzzy_match lower target w) i ws"
proof (induction ws arbitrary: i)
  case Nil
  then show ?case by simp
next
  case (Cons w ws)
  show ?case by (simp only: find_occurrence_Cons first_index.simps Cons)
qed

lemma first_index_some:
  "first_index P i xs = r \<Longrightarrow> r \<noteq> - 1 \<Longrightarrow> 0 \<le> i \<Longrightarrow>
   i \<le> r \<and> r < i + int (length xs) \<and> P (xs ! nat (r - i)) \<and> (\<forall>j < nat (r - i). \<not> P (xs ! j))"
proof (induction xs arbitrary: i)
  case Nil
  then show ?case by simp
next
  case (Cons x xs)
  show ?case
  proof (cases "P x")
    case True
    with Cons.prems show ?thesis by simp
  next
    case False
    with Cons.prems have r: "first_index P (i + 1) xs = r" by simp
    from Cons.IH [OF r Cons.prems(2)] Cons.prems(3)
    have ih: "i + 1 \<le> r" "r < i + 1 + int (length xs)" "P (xs ! nat (r - (i + 1)))"
      "\<forall>j < nat (r - (i + 1)). \<not> P (xs ! j)" by simp_all
    have eq: "nat (r - i) = Suc (nat (r - (i + 1)))" using ih(1) by linarith
    have "\<forall>j < nat (r - i). \<not> P ((x # xs) ! j)"
    proof (intro allI impI)
      fix j assume "j < nat (r - i)"
      then show "\<not> P ((x # xs) ! j)" using ih(4) False eq by (cases j) simp_all
    qed
    then show ?thesis using ih eq by simp
  qed
qed

lemma context_sizes_bounds:
  assumes "0 \<le> p" "p < n" "0 \<le> m" "context_sizes n p m = (b, a)"
  shows "0 \<le> b \<and> b \<le> p \<and> 0 \<le> a \<and> a \<le> n - p - 1 \<and> b + a \<le> m"
proof -
  define h where "h = m div 2"
  define b0 where "b0 = min p h"
  define a0 where "a0 = min (n - p - 1) h"
  define rem where "rem = m - (b0 + a0 + 1)"
  define eb where "eb = min (p - b0) (rem div 2)"
  define ea where "ea = min (n - p - 1 - a0) (rem - eb)"
  have h: "0 \<le> h" "2 * h \<le> m" using assms(3) by (simp_all add: h_def)
  have b0: "0 \<le> b0" "b0 \<le> p" "b0 \<le> h" using assms(1) h(1) by (simp_all add: b0_def)
  have a0: "0 \<le> a0" "a0 \<le> n - p - 1" "a0 \<le> h" using assms(2) h(1) by (simp_all add: a0_def)
  have cs: "(b, a) = (if rem > 0 then (b0 + eb, a0 + ea) else (b0, a0))"
    using assms(4) unfolding context_sizes_def Let_def h_def b0_def a0_def rem_def eb_def ea_def
    by simp
  show ?thesis
  proof (cases "rem > 0")
    case True
    have r2: "0 \<le> rem div 2" "rem div 2 \<le> rem" using True by simp_all
    have eb: "0 \<le> eb" "eb \<le> p - b0" "eb \<le> rem" using b0(2) r2 by (simp_all add: eb_def)
    have ea: "0 \<le> ea" "ea \<le> n - p - 1 - a0" "ea \<le> rem - eb" using a0(2) eb(3) by (simp_all add: ea_def)
    have "b = b0 + eb" "a = a0 + ea" using cs True by simp_all
    then show ?thesis using b0 a0 eb ea unfolding rem_def by linarith
  next
    case False
    then have "b = b0" "a = a0" using cs by simp_all
    then show ?thesis using b0 a0 h by linarith
  qed
qed

lemma window_bounds:
  assumes "0 \<le> p" "p < n" "0 \<le> m" "window n p m = (s, e)"
  shows "0 \<le> s \<and> s \<le> p \<and> p < e \<and> e \<le> n \<and> e - s \<le> m + 1"
proof -
  obtain b a where ba: "context_sizes n p m = (b, a)" by (cases "context_sizes n p m")
  note bnd = context_sizes_bounds [OF assms(1-3) ba]
  have "s = max 0 (p - b)" "e = min n (p + a + 1)"
    using assms(4) ba by (simp_all add: window_def)
  then show ?thesis using bnd assms(1,2) by linarith
qed

section \<open>The trimmer's window\<close>

lemma first_index_leftmost:
  "\<lbrakk>p < length xs; P (xs ! p); \<forall>j<p. \<not> P (xs ! j)\<rbrakk> \<Longrightarrow> first_index P i xs = i + int p"
proof (induction xs arbitrary: i p)
  case Nil
  then show ?case by simp
next
  case (Cons x xs)
  show ?case
  proof (cases p)
    case 0
    with Cons.prems show ?thesis by simp
  next
    case (Suc q)
    have nx: "\<not> P x" using Cons.prems(3) Suc by auto
    have "first_index P (i + 1) xs = i + 1 + int q"
    proof (rule Cons.IH)
      show "q < length xs" using Cons.prems(1) Suc by simp
      show "P (xs ! q)" using Cons.prems(2) Suc by simp
      show "\<forall>j<q. \<not> P (xs ! j)" using Cons.prems(3) Suc by auto
    qed
    then show ?thesis using nx Suc by simp
  qed
qed

lemma trim_long:
  assumes "max_words < int (length (py_split sentence))"
  shows "trim_sentence_with_occurrence lower sentence target max_words =
     (let words = py_split sentence;
          p = first_index (\<lambda>w. exact_match lower target w \<or> fuzzy_match lower target w) 0 words
      in if p = - 1 then py_join (slice words 0 max_words)
         else py_join (slice words (fst (window (int (length words)) p max_words))
                                 (snd (window (int (length words)) p max_words))))"
  using assms
  by (simp add: trim_sentence_with_occurrence_def Let_def find_occurrence_first_index
      case_prod_beta)

lemma trim_window:
  assumes long: "max_words < int (length (py_split sentence))" and m: "0 \<le> max_words"
    and p: "first_index (\<lambda>w. exact_match lower target w \<or> fuzzy_match lower target w) 0
              (py_split sentence) = p" "p \<noteq> - 1"
    and w: "window (int (length (py_split sentence))) p max_words = (start, stop)"
  shows "trim_sentence_with_occurrence lower sentence target max_words =
           py_join (take (nat (stop - start)) (drop (nat start) (py_split sentence)))"
    and "0 \<le> start" "start \<le> p" "p < stop" "stop \<le> int (length (py_split sentence))"
    and "stop - start \<le> max_words + 1"
proof -
  have rng: "0 \<le> p" "p < int (length (py_split sentence))"
    using first_index_some [OF p] by simp_all
  note b = window_bounds [OF rng m w]
  show "0 \<le> start" "start \<le> p" "p < stop" "stop \<le> int (length (py_split sentence))"
    "stop - start \<le> max_words + 1"
    using b by simp_all
  have "trim_sentence_with_occurrence lower sentence target max_words =
          py_join (slice (py_split sentence) start stop)"
    using p w by (simp add: trim_long [OF long] Let_def)
  also have "slice (py_split sentence) start stop =
          take (nat (stop - start)) (drop (nat start) (py_split sentence))"
    using b by (intro slice_in_range) simp_all
  finally show "trim_sentence_with_occurrence lower sentence target max_words =
           py_join (take (nat (stop - start)) (drop (nat start) (py_split sentence)))" .
qed

lemma trim_unmatched:
  assumes long: "max_words < int (length (py_split sentence))" and m: "0 \<le> max_words"
    and p: "first_index (\<lambda>w. exact_match lower target w \<or> fuzzy_match lower target w) 0
              (py_split sentence) = - 1"
  shows "trim_sentence_with_occurrence lower sentence target max_words =
           py_join (take (nat max_words) (py_split sentence))"
proof -
  have "slice (py_split sentence) 0 max_words =
          take (nat (max_words - 0)) (drop (nat 0) (py_split sentence))"
    using long m by (intro slice_in_range) simp_all
  then show ?thesis using p by (simp add: trim_long [OF long] Let_def)
qed

text \<open>
  C3. A sentence of at most \<open>max_words\<close> words is returned as it is, whatever the target
  word is.
\<close>

theorem trim_identity:
  "int (length (py_split sentence)) \<le> max_words \<Longrightarrow>
   trim_sentence_with_occurrence lower sentence occurrence_word max_words = sentence"
  by (simp add: trim_sentence_with_occurrence_def)

theorem trim_identity_witness:
  "int (length (py_split (codepoints ''Der  Hund ''))) \<le> 20 \<and>
   trim_sentence_with_occurrence ascii_lower (codepoints ''Der  Hund '') (codepoints ''Hund'') 20
     = codepoints ''Der  Hund ''"
  using trim_identity [of "codepoints ''Der  Hund ''" 20 ascii_lower "codepoints ''Hund''"]
  by (simp add: codepoints_def py_split_def isspace_def)

text \<open>
  C4. In a sentence of more than \<open>max_words\<close> words, let \<open>p\<close> be the leftmost
  position whose word matches the target by the exact or by the fuzzy rule. The loop
  finds \<open>p\<close>, and the excerpt is the words from \<open>start\<close> up to \<open>stop\<close> (excluded), joined
  by single spaces, where \<open>start \<le> p < stop\<close>: the word at \<open>p\<close> is the word at
  \<open>p - start\<close> of the excerpt. The word limit is not negative.
\<close>

theorem trim_contains_match:
  fixes p :: nat
  assumes "max_words < int (length (py_split sentence))" and "0 \<le> max_words"
    and "p < length (py_split sentence)"
    and "exact_match lower target (py_split sentence ! p)
         \<or> fuzzy_match lower target (py_split sentence ! p)"
    and "\<forall>j<p. \<not> (exact_match lower target (py_split sentence ! j)
                   \<or> fuzzy_match lower target (py_split sentence ! j))"
    and "window (int (length (py_split sentence))) (int p) max_words = (start, stop)"
  shows "find_occurrence lower (strip_chars punctuation (lower target)) 0 (py_split sentence)
           = int p
       \<and> trim_sentence_with_occurrence lower sentence target max_words
           = py_join (slice (py_split sentence) start stop)
       \<and> 0 \<le> start \<and> start \<le> int p \<and> int p < stop
       \<and> stop \<le> int (length (py_split sentence))
       \<and> slice (py_split sentence) start stop
           = take (nat (stop - start)) (drop (nat start) (py_split sentence))
       \<and> slice (py_split sentence) start stop ! (p - nat start) = py_split sentence ! p"
proof -
  let ?ws = "py_split sentence"
  let ?P = "\<lambda>w. exact_match lower target w \<or> fuzzy_match lower target w"
  have fi: "first_index ?P 0 ?ws = int p"
    using first_index_leftmost [of p ?ws ?P 0] assms(3,4,5) by simp
  have ne: "int p \<noteq> - 1" by simp
  note tw = trim_window [OF assms(1,2) fi ne assms(6)]
  have sl: "slice ?ws start stop = take (nat (stop - start)) (drop (nat start) ?ws)"
    using tw(2-5) by (intro slice_in_range) simp_all
  have "take (nat (stop - start)) (drop (nat start) ?ws) ! (p - nat start)
          = drop (nat start) ?ws ! (p - nat start)"
    using tw(2-4) by (intro nth_take) linarith
  also have "\<dots> = ?ws ! (nat start + (p - nat start))"
    using tw(2-5) by (intro nth_drop) linarith
  also have "nat start + (p - nat start) = p" using tw(2,3) by linarith
  finally have nth: "slice ?ws start stop ! (p - nat start) = ?ws ! p" using sl by simp
  show ?thesis
    using fi tw sl nth by (simp add: find_occurrence_first_index)
qed

theorem trim_contains_match_witness:
  "(3::int) < int (length (py_split (codepoints ''a b c d e'')))
   \<and> window (int (length (py_split (codepoints ''a b c d e'')))) (int 3) 3 = (2, 5)
   \<and> find_occurrence ascii_lower (strip_chars punctuation (ascii_lower (codepoints ''d''))) 0
         (py_split (codepoints ''a b c d e'')) = 3
   \<and> trim_sentence_with_occurrence ascii_lower (codepoints ''a b c d e'') (codepoints ''d'') 3
         = codepoints ''c d e''"
proof -
  let ?s = "codepoints ''a b c d e''" and ?t = "codepoints ''d''"
  have ws: "py_split ?s = [[97], [98], [99], [100], [101]]"
    by (simp add: codepoints_def py_split_def isspace_def)
  have h1: "(3::int) < int (length (py_split ?s))" by (simp add: ws)
  have h2: "(0::int) \<le> 3" by simp
  have h3: "(3::nat) < length (py_split ?s)" by (simp add: ws)
  have h4: "exact_match ascii_lower ?t (py_split ?s ! 3)
      \<or> fuzzy_match ascii_lower ?t (py_split ?s ! 3)"
    unfolding ws
    by (simp add: codepoints_def exact_match_def ascii_lower_def punctuation_def
        strip_chars_def)
  have h5: "\<forall>j<3. \<not> (exact_match ascii_lower ?t (py_split ?s ! j)
      \<or> fuzzy_match ascii_lower ?t (py_split ?s ! j))"
    unfolding ws
    by (simp add: codepoints_def exact_match_def fuzzy_match_def ascii_lower_def punctuation_def
        strip_chars_def numeral_3_eq_3 All_less_Suc)
  have h6: "window (int (length (py_split ?s))) (int 3) 3 = (2, 5)"
    by (simp add: ws window_def context_sizes_def)
  have sl: "py_join (slice (py_split ?s) 2 5) = codepoints ''c d e''"
    unfolding ws by (simp add: slice_def slice_index_def codepoints_def)
  from trim_contains_match [OF h1 h2 h3 h4 h5 h6] h1 h6 sl show ?thesis by simp
qed

text \<open>
  C5. With a word limit of at least 1 every call returns a string, and no step of it can
  raise: a sentence within the limit is returned as it is; a longer one in which no word
  matches gives its first \<open>max_words\<close> words; a longer one with a match gives a
  non-empty run of its words whose bounds lie within the word list.
\<close>

theorem trim_total:
  assumes "1 \<le> max_words"
  shows "(int (length (py_split sentence)) \<le> max_words \<longrightarrow>
            trim_sentence_with_occurrence lower sentence target max_words = sentence)
       \<and> (max_words < int (length (py_split sentence))
            \<and> find_occurrence lower (strip_chars punctuation (lower target)) 0
                  (py_split sentence) = - 1 \<longrightarrow>
            trim_sentence_with_occurrence lower sentence target max_words
              = py_join (take (nat max_words) (py_split sentence)))
       \<and> (max_words < int (length (py_split sentence))
            \<and> find_occurrence lower (strip_chars punctuation (lower target)) 0
                  (py_split sentence) \<noteq> - 1 \<longrightarrow>
            (\<exists>start stop. 0 \<le> start \<and> start < stop
               \<and> stop \<le> int (length (py_split sentence))
               \<and> trim_sentence_with_occurrence lower sentence target max_words
                   = py_join (take (nat (stop - start)) (drop (nat start) (py_split sentence)))))"
proof (intro conjI impI)
  assume "int (length (py_split sentence)) \<le> max_words"
  then show "trim_sentence_with_occurrence lower sentence target max_words = sentence"
    by (simp add: trim_sentence_with_occurrence_def)
next
  assume a: "max_words < int (length (py_split sentence))
    \<and> find_occurrence lower (strip_chars punctuation (lower target)) 0 (py_split sentence) = - 1"
  show "trim_sentence_with_occurrence lower sentence target max_words
          = py_join (take (nat max_words) (py_split sentence))"
    using a assms by (intro trim_unmatched) (simp_all add: find_occurrence_first_index)
next
  assume a: "max_words < int (length (py_split sentence))
    \<and> find_occurrence lower (strip_chars punctuation (lower target)) 0 (py_split sentence) \<noteq> - 1"
  let ?p = "first_index (\<lambda>w. exact_match lower target w \<or> fuzzy_match lower target w) 0
              (py_split sentence)"
  obtain start stop where w: "window (int (length (py_split sentence))) ?p max_words = (start, stop)"
    by (cases "window (int (length (py_split sentence))) ?p max_words")
  have long: "max_words < int (length (py_split sentence))" and m: "0 \<le> max_words"
    and ne: "?p \<noteq> - 1"
    using a assms by (simp_all add: find_occurrence_first_index)
  note tw = trim_window [OF long m refl ne w]
  have "0 \<le> start \<and> start < stop \<and> stop \<le> int (length (py_split sentence))
      \<and> trim_sentence_with_occurrence lower sentence target max_words
          = py_join (take (nat (stop - start)) (drop (nat start) (py_split sentence)))"
    using tw by simp
  then show "\<exists>start stop. 0 \<le> start \<and> start < stop
      \<and> stop \<le> int (length (py_split sentence))
      \<and> trim_sentence_with_occurrence lower sentence target max_words
          = py_join (take (nat (stop - start)) (drop (nat start) (py_split sentence)))"
    by blast
qed

theorem trim_total_witness:
  "(1::int) \<le> 2
   \<and> find_occurrence ascii_lower (strip_chars punctuation (ascii_lower (codepoints ''zebra''))) 0
         (py_split (codepoints ''ein kleiner Hund'')) = - 1
   \<and> trim_sentence_with_occurrence ascii_lower (codepoints ''ein kleiner Hund'')
         (codepoints ''zebra'') 2 = codepoints ''ein kleiner''"
proof -
  let ?s = "codepoints ''ein kleiner Hund''" and ?t = "codepoints ''zebra''"
  have ws: "py_split ?s = [codepoints ''ein'', codepoints ''kleiner'', codepoints ''Hund'']"
    by (simp add: codepoints_def py_split_def isspace_def)
  have f: "find_occurrence ascii_lower (strip_chars punctuation (ascii_lower ?t)) 0 (py_split ?s)
      = - 1"
    unfolding ws
    by (simp add: codepoints_def ascii_lower_def punctuation_def strip_chars_def
        startswith_def)
  have h: "(1::int) \<le> 2" by simp
  have l: "(2::int) < int (length (py_split ?s))" by (simp add: ws)
  have j: "py_join (take (nat 2) (py_split ?s)) = codepoints ''ein kleiner''"
    unfolding ws by (simp add: codepoints_def numeral_2_eq_2)
  from trim_total [OF h, of ?s ascii_lower ?t] f l j show ?thesis by simp
qed

lemma py_split_join_sub:
  assumes "set xs \<subseteq> set (py_split s)"
  shows "py_split (py_join xs) = xs"
proof (rule py_split_join, rule ballI)
  fix w assume "w \<in> set xs"
  then have "w \<in> set (py_split s)" using assms by (rule subsetD [rotated])
  then show "w \<noteq> [] \<and> (\<forall>c\<in>set w. \<not> isspace c)" by (rule py_split_words)
qed

lemma set_take_drop_sub: "set (take k (drop s xs)) \<subseteq> set xs"
  by (meson set_take_subset set_drop_subset subset_trans)

lemma trim_word_count_le_Suc:
  assumes long: "max_words < int (length (py_split sentence))" and m: "0 \<le> max_words"
  shows "int (length (py_split (trim_sentence_with_occurrence lower sentence target max_words)))
           \<le> max_words + 1"
proof (cases "first_index (\<lambda>w. exact_match lower target w \<or> fuzzy_match lower target w) 0
                (py_split sentence) = - 1")
  case True
  have "py_split (py_join (take (nat max_words) (py_split sentence)))
          = take (nat max_words) (py_split sentence)"
    by (rule py_split_join_sub [of _ sentence]) (rule set_take_subset)
  then show ?thesis using long m by (simp add: trim_unmatched [OF long m True])
next
  case False
  let ?p = "first_index (\<lambda>w. exact_match lower target w \<or> fuzzy_match lower target w) 0
              (py_split sentence)"
  obtain start stop where w: "window (int (length (py_split sentence))) ?p max_words = (start, stop)"
    by (cases "window (int (length (py_split sentence))) ?p max_words")
  note tw = trim_window [OF long m refl False w]
  have "py_split (py_join (take (nat (stop - start)) (drop (nat start) (py_split sentence))))
          = take (nat (stop - start)) (drop (nat start) (py_split sentence))"
    by (rule py_split_join_sub [of _ sentence]) (rule set_take_drop_sub)
  then have "length (py_split (trim_sentence_with_occurrence lower sentence target max_words))
          \<le> nat (stop - start)"
    by (simp add: tw(1))
  then have "int (length (py_split (trim_sentence_with_occurrence lower sentence target max_words)))
          \<le> int (nat (stop - start))"
    by (simp only: of_nat_le_iff)
  also have "\<dots> = stop - start" using tw(3,4) by simp
  finally show ?thesis using tw(6) by linarith
qed

text \<open>
  C1 fails on the code. A sentence of 21 words with the target at position 10 and a limit
  of 20 words comes back whole: ten words are kept on each side of the target, which
  makes 21.
\<close>

theorem trim_exceeds_max_words:
  "length (py_split letters_sentence) = 21
   \<and> trim_sentence_with_occurrence ascii_lower letters_sentence (codepoints ''k'') 20
       = letters_sentence
   \<and> length (py_split
         (trim_sentence_with_occurrence ascii_lower letters_sentence (codepoints ''k'') 20)) = 21"
proof -
  have t: "trim_sentence_with_occurrence ascii_lower letters_sentence (codepoints ''k'') 20
       = letters_sentence"
    by (simp add: trim_sentence_with_occurrence_def letters_sentence_def codepoints_def
        py_split_def isspace_def ascii_lower_def punctuation_def strip_chars_def startswith_def
        window_def context_sizes_def slice_def slice_index_def Let_def)
  have l: "length (py_split letters_sentence) = 21"
    by (simp add: letters_sentence_def codepoints_def py_split_def isspace_def)
  show ?thesis unfolding t using l by simp
qed

text \<open>
  C2 fails on the code. The loop is a single pass that stops at the first word matching by
  either rule. In the sentence below \<open>Kind\<close> (position 1) is a prefix of the target
  \<open>Kinder\<close>, which stands at position 20: the loop returns 1, the two passes of the
  specification return 20, and the excerpt of 20 words ends before the target.
\<close>

theorem fuzzy_match_shadows_exact_match:
  "find_occurrence ascii_lower (strip_chars punctuation (ascii_lower (codepoints ''Kinder''))) 0
     (py_split kinder_sentence) = 1
   \<and> two_pass_position ascii_lower (codepoints ''Kinder'') (py_split kinder_sentence) = 20
   \<and> py_split kinder_sentence ! 1 = codepoints ''Kind''
   \<and> py_split kinder_sentence ! 20 = codepoints ''Kinder''
   \<and> trim_sentence_with_occurrence ascii_lower kinder_sentence (codepoints ''Kinder'') 20
       = codepoints
           ''Das Kind sagt, dass am Montag in der Schule neben dem alten Rathaus von Berlin sehr viele laute und lustige''"
proof -
  have ws: "py_split kinder_sentence =
      map codepoints [''Das'', ''Kind'', ''sagt,'', ''dass'', ''am'', ''Montag'', ''in'', ''der'',
        ''Schule'', ''neben'', ''dem'', ''alten'', ''Rathaus'', ''von'', ''Berlin'', ''sehr'',
        ''viele'', ''laute'', ''und'', ''lustige'', ''Kinder'', ''spielen.'']"
    by (simp add: kinder_sentence_def codepoints_def py_split_def isspace_def)
  have f: "find_occurrence ascii_lower
      (strip_chars punctuation (ascii_lower (codepoints ''Kinder''))) 0 (py_split kinder_sentence)
      = 1"
    unfolding ws
    by (simp add: codepoints_def ascii_lower_def punctuation_def strip_chars_def startswith_def)
  have p: "two_pass_position ascii_lower (codepoints ''Kinder'') (py_split kinder_sentence) = 20"
    unfolding ws
    by (simp add: two_pass_position_def exact_match_def fuzzy_match_def codepoints_def
        ascii_lower_def punctuation_def strip_chars_def)
  have n1: "py_split kinder_sentence ! 1 = codepoints ''Kind''" unfolding ws by simp
  have n20: "py_split kinder_sentence ! 20 = codepoints ''Kinder''" unfolding ws by simp
  have w: "window 22 1 20 = (0, 20)"
    by (simp add: window_def context_sizes_def)
  have j: "py_join (slice (py_split kinder_sentence) 0 20) =
      codepoints
        ''Das Kind sagt, dass am Montag in der Schule neben dem alten Rathaus von Berlin sehr viele laute und lustige''"
    unfolding ws by (simp add: slice_def slice_index_def codepoints_def)
  have l: "length (py_split kinder_sentence) = 22" unfolding ws by simp
  have t: "trim_sentence_with_occurrence ascii_lower kinder_sentence (codepoints ''Kinder'') 20
      = py_join (slice (py_split kinder_sentence) 0 20)"
    by (simp add: trim_sentence_with_occurrence_def Let_def f l w)
  from f p n1 n20 t [unfolded j] show ?thesis by (intro conjI)
qed

section \<open>The extractor's loop\<close>

lemma first_seen_from_snoc:
  "first_seen_from seen (es @ [e]) =
     first_seen_from seen es @ (if fst e \<in> seen \<union> fst ` set es then [] else [e])"
proof (induction es arbitrary: seen)
  case Nil
  then show ?case by simp
next
  case (Cons x es)
  show ?case
  proof (cases "fst x \<in> seen")
    case True
    then show ?thesis using Cons [of seen] by auto
  next
    case False
    then show ?thesis using Cons [of "insert (fst x) seen"] by auto
  qed
qed

lemma first_seen_snoc:
  "first_seen (es @ [e]) = first_seen es @ (if fst e \<in> fst ` set es then [] else [e])"
  by (simp add: first_seen_def first_seen_from_snoc)

lemma first_seen_Nil: "first_seen [] = []"
  by (simp add: first_seen_def)

lemma first_seen_single: "first_seen [e] = [e]"
  by (simp add: first_seen_def)

lemma set_first_seen_from: "fst ` set (first_seen_from seen es) = fst ` set es - seen"
proof (induction es arbitrary: seen)
  case Nil
  then show ?case by simp
next
  case (Cons x es)
  show ?case
  proof (cases "fst x \<in> seen")
    case True
    then show ?thesis using Cons [of seen] by auto
  next
    case False
    then show ?thesis using Cons [of "insert (fst x) seen"] by auto
  qed
qed

lemma distinct_first_seen_from: "distinct (map fst (first_seen_from seen es))"
proof (induction es arbitrary: seen)
  case Nil
  then show ?case by simp
next
  case (Cons x es)
  show ?case
  proof (cases "fst x \<in> seen")
    case True
    then show ?thesis using Cons [of seen] by simp
  next
    case False
    have "fst x \<notin> fst ` set (first_seen_from (insert (fst x) seen) es)"
      by (simp add: set_first_seen_from)
    then show ?thesis using False Cons [of "insert (fst x) seen"] by simp
  qed
qed

lemma subseq_first_seen_from: "subseq (first_seen_from seen es) es"
proof (induction es arbitrary: seen)
  case Nil
  then show ?case by simp
next
  case (Cons x es)
  show ?case
  proof (cases "fst x \<in> seen")
    case True
    then show ?thesis using Cons [of seen] by (simp add: list_emb_Cons)
  next
    case False
    then show ?thesis using Cons [of "insert (fst x) seen"] by simp
  qed
qed

lemma set_first_seen: "fst ` set (first_seen es) = fst ` set es"
  by (simp add: first_seen_def set_first_seen_from)

lemma distinct_first_seen: "distinct (map fst (first_seen es))"
  by (simp add: first_seen_def distinct_first_seen_from)

lemma subseq_first_seen: "subseq (first_seen es) es"
  by (simp add: first_seen_def subseq_first_seen_from)

lemma sightings_of_snoc:
  "sightings_of l (es @ [(k, e)]) = sightings_of l es @ (if k = l then [e] else [])"
  by (simp add: sightings_of_def)

lemma sightings_of_empty: "l \<notin> fst ` set es \<Longrightarrow> sightings_of l es = []"
  by (induction es) (auto simp: sightings_of_def)

lemma sightings_of_nonempty: "l \<in> fst ` set es \<Longrightarrow> sightings_of l es \<noteq> []"
  by (induction es) (auto simp: sightings_of_def)

lemma track_fresh:
  assumes "map_of orig l = None"
  shows "track lower l cs w (W, occ, orig) =
     Inr (insert l W,
          AList.update l [trim_sentence_with_occurrence lower cs w 20] (AList.update l [] occ),
          AList.update l {cs} (AList.update l {} orig))"
  using assms by (simp add: track_def getitem_def update_conv' Let_def)

lemma track_new_sentence:
  assumes "map_of orig l = Some S" "cs \<notin> S" "map_of occ l = Some ps"
  shows "track lower l cs w (W, occ, orig) =
     Inr (insert l W,
          AList.update l (ps @ [trim_sentence_with_occurrence lower cs w 20]) occ,
          AList.update l (insert cs S) orig)"
  using assms by (simp add: track_def getitem_def Let_def)

lemma track_seen:
  assumes "map_of orig l = Some S" "cs \<in> S"
  shows "track lower l cs w (W, occ, orig) = Inr (insert l W, occ, orig)"
  using assms by (simp add: track_def getitem_def Let_def)

lemma tracks_I:
  assumes "W = fst ` set es" "distinct (map fst occ)"
    and "\<And>k. map_of occ k =
           (if k \<in> fst ` set es
            then Some (map (\<lambda>(s, w). trim_sentence_with_occurrence lower s w 20)
                         (first_seen (sightings_of k es)))
            else None)"
    and "\<And>k. map_of orig k =
           (if k \<in> fst ` set es then Some (fst ` set (sightings_of k es)) else None)"
  shows "tracks lower es (W, occ, orig)"
  using assms by (simp add: tracks_def)

lemma tracks_D:
  assumes "tracks lower es (W, occ, orig)"
  shows "W = fst ` set es" "distinct (map fst occ)"
    and "map_of occ k =
           (if k \<in> fst ` set es
            then Some (map (\<lambda>(s, w). trim_sentence_with_occurrence lower s w 20)
                         (first_seen (sightings_of k es)))
            else None)"
    and "map_of orig k =
           (if k \<in> fst ` set es then Some (fst ` set (sightings_of k es)) else None)"
  using assms by (simp_all add: tracks_def)

lemma track_step:
  assumes inv: "tracks lower es t"
  shows "\<exists>t'. track lower l cs w t = Inr t' \<and> tracks lower (es @ [(l, cs, w)]) t'"
proof -
  obtain W occ orig where t: "t = (W, occ, orig)" by (cases t)
  note d = tracks_D [OF inv [unfolded t]]
  let ?es = "es @ [(l, cs, w)]"
  let ?tr = "trim_sentence_with_occurrence lower cs w 20"
  have keys: "fst ` set ?es = insert l (fst ` set es)" by simp
  have other: "sightings_of k ?es = sightings_of k es" if "k \<noteq> l" for k
    using that by (simp add: sightings_of_snoc)
  have own: "sightings_of l ?es = sightings_of l es @ [(cs, w)]"
    by (simp add: sightings_of_snoc)
  show ?thesis
  proof (cases "l \<in> fst ` set es")
    case False
    have none: "map_of orig l = None" using d(4) [of l] False by simp
    have e: "sightings_of l es = []" using False by (rule sightings_of_empty)
    have "tracks lower ?es (insert l W, AList.update l [?tr] (AList.update l [] occ),
        AList.update l {cs} (AList.update l {} orig))"
    proof (rule tracks_I)
      show "insert l W = fst ` set ?es" using d(1) by simp
      show "distinct (map fst (AList.update l [?tr] (AList.update l [] occ)))"
        using d(2) by (simp add: distinct_update)
      fix k
      show "map_of (AList.update l [?tr] (AList.update l [] occ)) k =
           (if k \<in> fst ` set ?es
            then Some (map (\<lambda>(s, w). trim_sentence_with_occurrence lower s w 20)
                         (first_seen (sightings_of k ?es)))
            else None)"
      proof (cases "k = l")
        case True
        then show ?thesis by (simp add: update_conv' own e first_seen_single)
      next
        case False
        then show ?thesis using d(3) [of k] by (simp add: update_conv' other)
      qed
      show "map_of (AList.update l {cs} (AList.update l {} orig)) k =
           (if k \<in> fst ` set ?es then Some (fst ` set (sightings_of k ?es)) else None)"
      proof (cases "k = l")
        case True
        then show ?thesis by (simp add: update_conv' own e)
      next
        case False
        then show ?thesis using d(4) [of k] by (simp add: update_conv' other)
      qed
    qed
    then show ?thesis unfolding t track_fresh [OF none] by blast
  next
    case True
    let ?S = "fst ` set (sightings_of l es)"
    let ?ps = "map (\<lambda>(s, w). trim_sentence_with_occurrence lower s w 20)
                 (first_seen (sightings_of l es))"
    have so: "map_of orig l = Some ?S" using d(4) [of l] True by simp
    have po: "map_of occ l = Some ?ps" using d(3) [of l] True by simp
    have W: "insert l W = fst ` set ?es" using d(1) True by auto
    show ?thesis
    proof (cases "cs \<in> ?S")
      case False
      have "tracks lower ?es (insert l W, AList.update l (?ps @ [?tr]) occ,
          AList.update l (insert cs ?S) orig)"
      proof (rule tracks_I)
        show "insert l W = fst ` set ?es" by (rule W)
        show "distinct (map fst (AList.update l (?ps @ [?tr]) occ))"
          using d(2) by (simp add: distinct_update)
        fix k
        show "map_of (AList.update l (?ps @ [?tr]) occ) k =
           (if k \<in> fst ` set ?es
            then Some (map (\<lambda>(s, w). trim_sentence_with_occurrence lower s w 20)
                         (first_seen (sightings_of k ?es)))
            else None)"
        proof (cases "k = l")
          case True
          then show ?thesis using False by (simp add: update_conv' own first_seen_snoc)
        next
          case False
          then show ?thesis using d(3) [of k] by (simp add: update_conv' other)
        qed
        show "map_of (AList.update l (insert cs ?S) orig) k =
           (if k \<in> fst ` set ?es then Some (fst ` set (sightings_of k ?es)) else None)"
        proof (cases "k = l")
          case True
          then show ?thesis by (simp add: update_conv' own)
        next
          case False
          then show ?thesis using d(4) [of k] by (simp add: update_conv' other)
        qed
      qed
      then show ?thesis unfolding t track_new_sentence [OF so False po] by blast
    next
      case seen: True
      have "tracks lower ?es (insert l W, occ, orig)"
      proof (rule tracks_I)
        show "insert l W = fst ` set ?es" by (rule W)
        show "distinct (map fst occ)" by (rule d(2))
        fix k
        show "map_of occ k =
           (if k \<in> fst ` set ?es
            then Some (map (\<lambda>(s, w). trim_sentence_with_occurrence lower s w 20)
                         (first_seen (sightings_of k ?es)))
            else None)"
        proof (cases "k = l")
          case True
          then show ?thesis using seen po by (simp add: own first_seen_snoc)
        next
          case False
          then show ?thesis using d(3) [of k] by (simp add: other)
        qed
        show "map_of orig k =
           (if k \<in> fst ` set ?es then Some (fst ` set (sightings_of k ?es)) else None)"
        proof (cases "k = l")
          case True
          then show ?thesis using seen so by (simp add: own insert_absorb)
        next
          case False
          then show ?thesis using d(4) [of k] by (simp add: other)
        qed
      qed
      then show ?thesis unfolding t track_seen [OF so seen] by blast
    qed
  qed
qed

lemma sightings_from_Nil: "sightings_from lower d c i [] = []"
  by (simp add: sightings_from_def List.map_filter_simps)

lemma sightings_from_Cons:
  "sightings_from lower d c i (tok # toks) =
     (if tok_pos tok = c then (case qualify lower d i tok of None \<Rightarrow> [] | Some e \<Rightarrow> [e]) else [])
     @ sightings_from lower d c (Suc i) toks"
  by (simp add: sightings_from_def List.map_filter_simps split: option.splits)

lemma tracks_initial: "tracks lower [] (tracker_of c initial_state)"
  by (cases c) (simp_all add: tracks_def initial_state_def)

lemma process_token_step:
  assumes inv: "\<And>c. c \<noteq> OTHER \<Longrightarrow> tracks lower (es c) (tracker_of c st)"
  shows "\<exists>st'. process_token lower d i tok st = Inr st'
     \<and> (\<forall>c. c \<noteq> OTHER \<longrightarrow>
           tracks lower (es c @ sightings_from lower d c i [tok]) (tracker_of c st'))"
proof (cases "qualify lower d i tok")
  case None
  then have "process_token lower d i tok st = Inr st" by (simp add: process_token_def)
  moreover have "sightings_from lower d c i [tok] = []" for c
    using None by (simp add: sightings_from_Cons sightings_from_Nil)
  ultimately show ?thesis using inv by simp
next
  case (Some e)
  obtain l cs w where e: "e = (l, cs, w)" by (cases e)
  have sf: "sightings_from lower d c i [tok] = (if tok_pos tok = c then [(l, cs, w)] else [])" for c
    using Some e by (simp add: sightings_from_Cons sightings_from_Nil)
  show ?thesis
  proof (cases "tok_pos tok")
    case NOUN
    obtain t' where t': "track lower l cs w (tracker_of NOUN st) = Inr t'"
      "tracks lower (es NOUN @ [(l, cs, w)]) t'"
      using track_step [OF inv [of NOUN]] by blast
    obtain a b c where abc: "t' = (a, b, c)" by (cases t')
    let ?st = "st\<lparr>nouns := a, noun_occurrences := b, noun_original_sentences := c\<rparr>"
    have "process_token lower d i tok st = Inr ?st"
      using Some e NOUN t'(1) abc by (simp add: process_token_def)
    moreover have "tracks lower (es k @ sightings_from lower d k i [tok]) (tracker_of k ?st)"
      if "k \<noteq> OTHER" for k
      using that inv [of k] t'(2) abc NOUN by (cases k) (simp_all add: sf)
    ultimately show ?thesis by blast
  next
    case VERB
    obtain t' where t': "track lower l cs w (tracker_of VERB st) = Inr t'"
      "tracks lower (es VERB @ [(l, cs, w)]) t'"
      using track_step [OF inv [of VERB]] by blast
    obtain a b c where abc: "t' = (a, b, c)" by (cases t')
    let ?st = "st\<lparr>verbs := a, verb_occurrences := b, verb_original_sentences := c\<rparr>"
    have "process_token lower d i tok st = Inr ?st"
      using Some e VERB t'(1) abc by (simp add: process_token_def)
    moreover have "tracks lower (es k @ sightings_from lower d k i [tok]) (tracker_of k ?st)"
      if "k \<noteq> OTHER" for k
      using that inv [of k] t'(2) abc VERB by (cases k) (simp_all add: sf)
    ultimately show ?thesis by blast
  next
    case ADJ
    obtain t' where t': "track lower l cs w (tracker_of ADJ st) = Inr t'"
      "tracks lower (es ADJ @ [(l, cs, w)]) t'"
      using track_step [OF inv [of ADJ]] by blast
    obtain a b c where abc: "t' = (a, b, c)" by (cases t')
    let ?st = "st\<lparr>adjectives := a, adjective_occurrences := b,
      adjective_original_sentences := c\<rparr>"
    have "process_token lower d i tok st = Inr ?st"
      using Some e ADJ t'(1) abc by (simp add: process_token_def)
    moreover have "tracks lower (es k @ sightings_from lower d k i [tok]) (tracker_of k ?st)"
      if "k \<noteq> OTHER" for k
      using that inv [of k] t'(2) abc ADJ by (cases k) (simp_all add: sf)
    ultimately show ?thesis by blast
  next
    case OTHER
    have "process_token lower d i tok st = Inr st"
      using Some e OTHER by (simp add: process_token_def)
    moreover have "tracks lower (es k @ sightings_from lower d k i [tok]) (tracker_of k st)"
      if "k \<noteq> OTHER" for k
      using that inv [of k] OTHER by (simp add: sf)
    ultimately show ?thesis by blast
  qed
qed

lemma process_tokens_inv:
  assumes "\<And>c. c \<noteq> OTHER \<Longrightarrow> tracks lower (es c) (tracker_of c st)"
  shows "\<exists>st'. process_tokens lower d i toks st = Inr st'
     \<and> (\<forall>c. c \<noteq> OTHER \<longrightarrow>
           tracks lower (es c @ sightings_from lower d c i toks) (tracker_of c st'))"
  using assms
proof (induction toks arbitrary: i st es)
  case Nil
  then show ?case by (simp add: sightings_from_Nil)
next
  case (Cons tok toks)
  obtain st1 where s1: "process_token lower d i tok st = Inr st1"
    and i1: "\<And>c. c \<noteq> OTHER \<Longrightarrow>
      tracks lower (es c @ sightings_from lower d c i [tok]) (tracker_of c st1)"
    using process_token_step [of lower es st d i tok] Cons.prems by blast
  obtain st2 where s2: "process_tokens lower d (Suc i) toks st1 = Inr st2"
    and i2: "\<And>c. c \<noteq> OTHER \<Longrightarrow>
      tracks lower ((es c @ sightings_from lower d c i [tok])
        @ sightings_from lower d c (Suc i) toks) (tracker_of c st2)"
    using Cons.IH [of "\<lambda>c. es c @ sightings_from lower d c i [tok]" st1 "Suc i"] i1 by blast
  have "sightings_from lower d c i [tok] @ sightings_from lower d c (Suc i) toks
      = sightings_from lower d c i (tok # toks)" for c
    by (simp add: sightings_from_Cons sightings_from_Nil)
  then have "tracks lower (es c @ sightings_from lower d c i (tok # toks)) (tracker_of c st2)"
    if "c \<noteq> OTHER" for c
    using i2 [OF that] by simp
  moreover have "process_tokens lower d i (tok # toks) st = Inr st2"
    using s1 s2 by simp
  ultimately show ?case by blast
qed

lemma process_tokens_sightings:
  "\<exists>st. process_tokens lower d 0 (tokens d) initial_state = Inr st
     \<and> (\<forall>c. c \<noteq> OTHER \<longrightarrow> tracks lower (sightings lower d c) (tracker_of c st))"
  using process_tokens_inv [of lower "\<lambda>c. []" initial_state d 0 "tokens d"]
  by (simp add: tracks_initial sightings_def)

section \<open>The result\<close>

lemma occurrences_list_total:
  "set ks \<subseteq> fst ` set d \<Longrightarrow>
   occurrences_list key d ks =
     Inr (concat (map (\<lambda>k. map (\<lambda>p. \<lparr>tag_key = key, tag = k, phrase = p\<rparr>) (the (map_of d k))) ks))"
proof (induction ks)
  case Nil
  then show ?case by simp
next
  case (Cons k ks)
  from Cons.prems have "k \<in> fst ` set d" by simp
  then obtain v where v: "map_of d k = Some v"
    using map_of_eq_None_iff [of d k] by (cases "map_of d k") simp_all
  from Cons.prems have "set ks \<subseteq> fst ` set d" by simp
  from Cons.IH [OF this] v show ?case by (simp add: getitem_def)
qed

lemma sorted_keys_distinct:
  "distinct (map fst d) \<Longrightarrow> sorted_keys d = sorted_list_of_set (fst ` set d)"
proof -
  assume "distinct (map fst d)"
  then have "sort (remdups (map fst d)) = sort (map fst d)"
    by (simp only: distinct_remdups_id)
  then show ?thesis
    using sorted_list_of_set_sort_remdups [of "map fst d"] by (simp add: sorted_keys_def)
qed

lemma flatten_tracked:
  assumes inv: "tracks lower es (W, occ, orig)"
  shows "occurrences_list key occ (sorted_keys occ) = Inr (grouped_occurrences lower key es)"
    and "sorted_list_of_set W = sorted_list_of_set (fst ` set es)"
proof -
  note d = tracks_D [OF inv]
  show "sorted_list_of_set W = sorted_list_of_set (fst ` set es)" using d(1) by simp
  have keys: "fst ` set occ = fst ` set es"
  proof (rule set_eqI)
    fix k
    have "k \<in> fst ` set occ \<longleftrightarrow> map_of occ k \<noteq> None"
      using map_of_eq_None_iff [of occ k] by simp
    also have "\<dots> \<longleftrightarrow> k \<in> fst ` set es" using d(3) [of k] by simp
    finally show "k \<in> fst ` set occ \<longleftrightarrow> k \<in> fst ` set es" .
  qed
  have sk: "sorted_keys occ = sorted_list_of_set (fst ` set es)"
    using sorted_keys_distinct [OF d(2)] keys by simp
  have fin: "finite (fst ` set es)" by simp
  have sub: "set (sorted_keys occ) \<subseteq> fst ` set occ"
    unfolding sk keys using fin by simp
  have "concat (map (\<lambda>k. map (\<lambda>p. \<lparr>tag_key = key, tag = k, phrase = p\<rparr>) (the (map_of occ k)))
            (sorted_list_of_set (fst ` set es)))
      = grouped_occurrences lower key es"
    unfolding grouped_occurrences_def
  proof (rule arg_cong [where f = concat], rule map_cong [OF refl])
    fix k assume "k \<in> set (sorted_list_of_set (fst ` set es))"
    then have "k \<in> fst ` set es" using fin by simp
    then have "map_of occ k = Some (map (\<lambda>(s, w). trim_sentence_with_occurrence lower s w 20)
        (first_seen (sightings_of k es)))"
      using d(3) [of k] by simp
    then show "map (\<lambda>p. \<lparr>tag_key = key, tag = k, phrase = p\<rparr>) (the (map_of occ k))
        = map (\<lambda>(s, w). \<lparr>tag_key = key, tag = k,
                 phrase = trim_sentence_with_occurrence lower s w 20\<rparr>)
            (first_seen (sightings_of k es))"
      by (simp add: case_prod_beta)
  qed
  then show "occurrences_list key occ (sorted_keys occ) = Inr (grouped_occurrences lower key es)"
    using occurrences_list_total [OF sub, of key] by (simp add: sk)
qed

lemma py_strip_Nil: "py_strip [] = []"
  by (simp add: py_strip_def)

lemma extract_nonblank:
  assumes "py_strip text \<noteq> []"
  shows "extract_pos_tags nlp lower text =
     Inr \<lparr>r_nouns = sorted_list_of_set (fst ` set (sightings lower (nlp text) NOUN)),
          r_verbs = sorted_list_of_set (fst ` set (sightings lower (nlp text) VERB)),
          r_adjectives = sorted_list_of_set (fst ` set (sightings lower (nlp text) ADJ)),
          r_verb_occurrences =
            grouped_occurrences lower ''infinitive'' (sightings lower (nlp text) VERB),
          r_noun_occurrences =
            grouped_occurrences lower ''noun'' (sightings lower (nlp text) NOUN),
          r_adjective_occurrences =
            grouped_occurrences lower ''adjective'' (sightings lower (nlp text) ADJ)\<rparr>"
proof -
  have ne: "text \<noteq> []" using assms py_strip_Nil by auto
  obtain st where st: "process_tokens lower (nlp text) 0 (tokens (nlp text)) initial_state = Inr st"
    and inv: "\<And>c. c \<noteq> OTHER \<Longrightarrow> tracks lower (sightings lower (nlp text) c) (tracker_of c st)"
    using process_tokens_sightings [of lower "nlp text"] by blast
  note n = flatten_tracked [OF inv [of NOUN, simplified]]
  note v = flatten_tracked [OF inv [of VERB, simplified]]
  note a = flatten_tracked [OF inv [of ADJ, simplified]]
  show ?thesis
    using assms ne st by (simp add: extract_pos_tags_def Let_def n v a)
qed

lemma extract_blank_eq:
  assumes "py_strip text = []"
  shows "extract_pos_tags nlp lower text = Inr empty_result"
  using assms by (simp add: extract_pos_tags_def)

lemma filter_concat_tagged:
  assumes g: "\<And>k x. tag (g k x) = k" and "distinct ks"
  shows "filter (\<lambda>e. tag e = l) (concat (map (\<lambda>k. map (g k) (f k)) ks))
           = (if l \<in> set ks then map (g l) (f l) else [])"
  using assms(2)
proof (induction ks)
  case Nil
  then show ?case by simp
next
  case (Cons k ks)
  have one: "filter (\<lambda>e. tag e = l) (map (g k) (f k)) = (if k = l then map (g k) (f k) else [])"
    by (simp add: filter_map comp_def g)
  from Cons.prems have dk: "distinct ks" and nk: "k \<notin> set ks" by simp_all
  show ?case
  proof (cases "k = l")
    case True
    then show ?thesis using Cons.IH [OF dk] nk one by simp
  next
    case False
    then show ?thesis using Cons.IH [OF dk] one by auto
  qed
qed

lemma sorted_concat_tagged:
  assumes g: "\<And>k x. tag (g k x) = k" and "sorted ks"
  shows "sorted (map tag (concat (map (\<lambda>k. map (g k) (f k)) ks)))"
  using assms(2)
proof (induction ks)
  case Nil
  then show ?case by simp
next
  case (Cons k ks)
  from Cons.prems have sk: "sorted ks" and le: "\<forall>j\<in>set ks. k \<le> j" by simp_all
  let ?rest = "map tag (concat (map (\<lambda>k. map (g k) (f k)) ks))"
  have head: "map tag (map (g k) (f k)) = replicate (length (f k)) k"
    by (simp add: comp_def g map_replicate_const)
  have rest: "set ?rest \<subseteq> set ks"
    by (auto simp: g)
  have "\<forall>x\<in>set (replicate (length (f k)) k). \<forall>y\<in>set ?rest. x \<le> y"
  proof (intro ballI)
    fix x y assume "x \<in> set (replicate (length (f k)) k)" and y: "y \<in> set ?rest"
    then have "x = k" by simp
    moreover have "y \<in> set ks" using y rest by (rule subsetD [rotated])
    ultimately show "x \<le> y" using le by simp
  qed
  then have "sorted (replicate (length (f k)) k @ ?rest)"
    using Cons.IH [OF sk] by (simp only: sorted_append sorted_replicate simp_thms)
  moreover have "map tag (concat (map (\<lambda>k. map (g k) (f k)) (k # ks)))
      = replicate (length (f k)) k @ ?rest"
    using head by simp
  ultimately show ?case by (simp only:)
qed

lemma set_concat_tagged:
  assumes g: "\<And>k x. tag (g k x) = k" and ne: "\<And>k. k \<in> set ks \<Longrightarrow> f k \<noteq> []"
  shows "tag ` set (concat (map (\<lambda>k. map (g k) (f k)) ks)) = set ks"
proof (rule set_eqI)
  fix l
  show "l \<in> tag ` set (concat (map (\<lambda>k. map (g k) (f k)) ks)) \<longleftrightarrow> l \<in> set ks"
  proof
    assume "l \<in> tag ` set (concat (map (\<lambda>k. map (g k) (f k)) ks))"
    then show "l \<in> set ks" by (auto simp: g)
  next
    assume l: "l \<in> set ks"
    then obtain x where "x \<in> set (f l)" using ne [OF l] by (cases "f l") auto
    then have "g l x \<in> set (concat (map (\<lambda>k. map (g k) (f k)) ks))" using l by auto
    then have "tag (g l x) \<in> tag ` set (concat (map (\<lambda>k. map (g k) (f k)) ks))"
      by (rule imageI)
    then show "l \<in> tag ` set (concat (map (\<lambda>k. map (g k) (f k)) ks))" by (simp add: g)
  qed
qed

lemma tag_entry:
  "tag ((\<lambda>(s, w). \<lparr>tag_key = key, tag = k, phrase = P s w\<rparr>) x) = k"
  by (simp add: case_prod_beta)

lemma grouped_filter:
  "filter (\<lambda>e. tag e = l) (grouped_occurrences lower key es)
     = map (\<lambda>(s, w). \<lparr>tag_key = key, tag = l,
              phrase = trim_sentence_with_occurrence lower s w 20\<rparr>)
         (first_seen (sightings_of l es))"
proof -
  have fin: "finite (fst ` set es)" by simp
  have "filter (\<lambda>e. tag e = l) (grouped_occurrences lower key es)
     = (if l \<in> set (sorted_list_of_set (fst ` set es))
        then map (\<lambda>(s, w). \<lparr>tag_key = key, tag = l,
              phrase = trim_sentence_with_occurrence lower s w 20\<rparr>)
         (first_seen (sightings_of l es)) else [])"
    unfolding grouped_occurrences_def
    by (rule filter_concat_tagged) (rule tag_entry, rule distinct_sorted_list_of_set)
  moreover have "first_seen (sightings_of l es) = []" if "l \<notin> fst ` set es"
    using sightings_of_empty [OF that] by (simp add: first_seen_Nil)
  ultimately show ?thesis using fin by auto
qed

lemma grouped_phrases:
  "map phrase (filter (\<lambda>e. tag e = l) (grouped_occurrences lower key es))
     = map (\<lambda>(s, w). trim_sentence_with_occurrence lower s w 20)
         (first_seen (sightings_of l es))"
  by (simp add: grouped_filter comp_def case_prod_beta)

lemma grouped_sorted: "sorted (map tag (grouped_occurrences lower key es))"
  unfolding grouped_occurrences_def
  by (rule sorted_concat_tagged) (rule tag_entry, rule sorted_sorted_list_of_set)

lemma grouped_tags: "tag ` set (grouped_occurrences lower key es) = fst ` set es"
proof -
  have fin: "finite (fst ` set es)" by simp
  have "tag ` set (grouped_occurrences lower key es) = set (sorted_list_of_set (fst ` set es))"
    unfolding grouped_occurrences_def
  proof (rule set_concat_tagged)
    fix k assume "k \<in> set (sorted_list_of_set (fst ` set es))"
    then have "k \<in> fst ` set es" using fin by simp
    then have "sightings_of k es \<noteq> []" by (rule sightings_of_nonempty)
    then have "fst ` set (sightings_of k es) \<noteq> {}" by simp
    then have "fst ` set (first_seen (sightings_of k es)) \<noteq> {}"
      using set_first_seen [of "sightings_of k es"] by simp
    then show "first_seen (sightings_of k es) \<noteq> []" by auto
  qed (rule tag_entry)
  then show ?thesis using fin by simp
qed

lemma grouped_key: "e \<in> set (grouped_occurrences lower key es) \<Longrightarrow> tag_key e = key"
  by (auto simp: grouped_occurrences_def)

section \<open>Claims on the extractor and on the entry point\<close>

lemma py_strip_blank: "py_strip text = [] \<longleftrightarrow> (\<forall>c\<in>set text. isspace c)"
proof
  assume a: "py_strip text = []"
  show "\<forall>c\<in>set text. isspace c"
  proof (cases "dropWhile isspace text")
    case Nil
    then show ?thesis using dropWhile_eq_Nil_conv [of isspace "text"] by blast
  next
    case (Cons x xs)
    then have nx: "\<not> isspace x" using hd_dropWhile [of isspace "text"] by simp
    from a have "dropWhile isspace (rev (dropWhile isspace text)) = []"
      by (simp add: py_strip_def)
    then have "\<forall>c\<in>set (rev (dropWhile isspace text)). isspace c"
      using dropWhile_eq_Nil_conv [of isspace "rev (dropWhile isspace text)"] by blast
    then have "isspace x" using Cons by simp
    with nx show ?thesis by simp
  qed
next
  assume "\<forall>c\<in>set text. isspace c"
  then have "dropWhile isspace text = []"
    using dropWhile_eq_Nil_conv [of isspace "text"] by blast
  then show "py_strip text = []" by (simp only: py_strip_def rev.simps dropWhile.simps)
qed

lemma extract_total: "\<exists>r. extract_pos_tags nlp lower text = Inr r"
proof (cases "py_strip text = []")
  case True
  then show ?thesis by (simp add: extract_blank_eq)
next
  case False
  then show ?thesis by (simp add: extract_nonblank)
qed

lemma example_text_nonblank: "py_strip example_text = example_text"
  by (simp add: example_text_def py_strip_def isspace_def codepoints_def)

lemma example_sightings_NOUN:
  "sightings ascii_lower example_doc NOUN =
     [(codepoints ''hund'', codepoints ''Der Hund jagt den Hund.'', codepoints ''Hund''),
      (codepoints ''hund'', codepoints ''Der Hund jagt den Hund.'', codepoints ''Hund''),
      (codepoints ''hund'', codepoints ''Der kleine Hund rennt.'', codepoints ''Hund'')]"
  by (simp add: sightings_def sightings_from_def example_doc_def word_token_def punct_token_def
      qualify_def List.map_filter_simps py_strip_def isspace_def ascii_lower_def codepoints_def)

text \<open>
  C7. A text that is empty or holds only whitespace gives the result whose six fields are
  empty, and no error.
\<close>

theorem extract_blank:
  assumes "\<forall>c\<in>set text. isspace c"
  shows "extract_pos_tags nlp lower text =
     Inr \<lparr>r_nouns = [], r_verbs = [], r_adjectives = [],
          r_verb_occurrences = [], r_noun_occurrences = [], r_adjective_occurrences = []\<rparr>"
  using assms py_strip_blank [of "text"] by (simp add: extract_blank_eq empty_result_def)

theorem extract_blank_witness:
  "isspace 32 \<and> isspace 10
   \<and> extract_pos_tags example_nlp ascii_lower [32, 10, 32] =
     Inr \<lparr>r_nouns = [], r_verbs = [], r_adjectives = [],
          r_verb_occurrences = [], r_noun_occurrences = [], r_adjective_occurrences = []\<rparr>"
  using extract_blank [of "[32, 10, 32]" example_nlp ascii_lower] by (simp add: isspace_def)

text \<open>
  C8. The extractor returns a result, and in it the phrases listed under a lemma \<open>l\<close> of
  a category are, in this order, the trimmed sentences of the first sighting of \<open>l\<close> in
  each sentence: the sentences of these sightings are pairwise distinct, they are all the
  sentences in which \<open>l\<close> is sighted, and they keep the document's order. (On a blank
  text the annotator is not called and nothing is listed.)
\<close>

theorem occurrences_deduplicated:
  "\<exists>r. extract_pos_tags nlp lower text = Inr r
     \<and> (\<forall>c l. c \<noteq> OTHER \<longrightarrow>
           map phrase (filter (\<lambda>e. tag e = l) (occurrences_of c r))
             = (if py_strip text = [] then []
                else map (\<lambda>(s, w). trim_sentence_with_occurrence lower s w 20)
                       (first_seen (sightings_of l (sightings lower (nlp text) c))))
           \<and> distinct (map fst (first_seen (sightings_of l (sightings lower (nlp text) c))))
           \<and> fst ` set (first_seen (sightings_of l (sightings lower (nlp text) c)))
               = fst ` set (sightings_of l (sightings lower (nlp text) c))
           \<and> subseq (first_seen (sightings_of l (sightings lower (nlp text) c)))
                 (sightings_of l (sightings lower (nlp text) c)))"
proof (cases "py_strip text = []")
  case True
  have "map phrase (filter (\<lambda>e. tag e = l) (occurrences_of c empty_result)) = []" for c l
    by (cases c) (simp_all add: empty_result_def)
  then show ?thesis
    using True
    by (simp add: extract_blank_eq distinct_first_seen set_first_seen subseq_first_seen)
next
  case False
  let ?r = "\<lparr>r_nouns = sorted_list_of_set (fst ` set (sightings lower (nlp text) NOUN)),
          r_verbs = sorted_list_of_set (fst ` set (sightings lower (nlp text) VERB)),
          r_adjectives = sorted_list_of_set (fst ` set (sightings lower (nlp text) ADJ)),
          r_verb_occurrences =
            grouped_occurrences lower ''infinitive'' (sightings lower (nlp text) VERB),
          r_noun_occurrences =
            grouped_occurrences lower ''noun'' (sightings lower (nlp text) NOUN),
          r_adjective_occurrences =
            grouped_occurrences lower ''adjective'' (sightings lower (nlp text) ADJ)\<rparr>"
  have "map phrase (filter (\<lambda>e. tag e = l) (occurrences_of c ?r))
      = map (\<lambda>(s, w). trim_sentence_with_occurrence lower s w 20)
          (first_seen (sightings_of l (sightings lower (nlp text) c)))"
    if "c \<noteq> OTHER" for c l
    using that by (cases c) (simp_all add: grouped_phrases)
  then show ?thesis
    using False
    by (simp add: extract_nonblank distinct_first_seen set_first_seen subseq_first_seen)
qed

theorem occurrences_deduplicated_witness:
  "NOUN \<noteq> OTHER
   \<and> sightings_of (codepoints ''hund'') (sightings ascii_lower (example_nlp example_text) NOUN)
       = [(codepoints ''Der Hund jagt den Hund.'', codepoints ''Hund''),
          (codepoints ''Der Hund jagt den Hund.'', codepoints ''Hund''),
          (codepoints ''Der kleine Hund rennt.'', codepoints ''Hund'')]
   \<and> (\<exists>r. extract_pos_tags example_nlp ascii_lower example_text = Inr r
        \<and> map phrase (filter (\<lambda>e. tag e = codepoints ''hund'') (r_noun_occurrences r))
            = [codepoints ''Der Hund jagt den Hund.'', codepoints ''Der kleine Hund rennt.''])"
proof -
  let ?h = "codepoints ''hund''"
  have so: "sightings_of ?h (sightings ascii_lower (example_nlp example_text) NOUN)
       = [(codepoints ''Der Hund jagt den Hund.'', codepoints ''Hund''),
          (codepoints ''Der Hund jagt den Hund.'', codepoints ''Hund''),
          (codepoints ''Der kleine Hund rennt.'', codepoints ''Hund'')]"
    by (simp add: example_nlp_def example_sightings_NOUN sightings_of_def)
  have fs: "first_seen (sightings_of ?h (sightings ascii_lower (example_nlp example_text) NOUN))
       = [(codepoints ''Der Hund jagt den Hund.'', codepoints ''Hund''),
          (codepoints ''Der kleine Hund rennt.'', codepoints ''Hund'')]"
    unfolding so by (simp add: first_seen_def codepoints_def)
  have t1: "trim_sentence_with_occurrence ascii_lower (codepoints ''Der Hund jagt den Hund.'')
      (codepoints ''Hund'') 20 = codepoints ''Der Hund jagt den Hund.''"
    by (simp add: trim_sentence_with_occurrence_def codepoints_def py_split_def isspace_def)
  have t2: "trim_sentence_with_occurrence ascii_lower (codepoints ''Der kleine Hund rennt.'')
      (codepoints ''Hund'') 20 = codepoints ''Der kleine Hund rennt.''"
    by (simp add: trim_sentence_with_occurrence_def codepoints_def py_split_def isspace_def)
  have ne: "py_strip example_text \<noteq> []"
    by (simp add: example_text_nonblank) (simp add: example_text_def codepoints_def)
  have c: "NOUN \<noteq> OTHER" by simp
  from occurrences_deduplicated [of example_nlp ascii_lower example_text]
  obtain r where r: "extract_pos_tags example_nlp ascii_lower example_text = Inr r"
    and a: "\<forall>c l. c \<noteq> OTHER \<longrightarrow>
           map phrase (filter (\<lambda>e. tag e = l) (occurrences_of c r))
             = (if py_strip example_text = [] then []
                else map (\<lambda>(s, w). trim_sentence_with_occurrence ascii_lower s w 20)
                       (first_seen (sightings_of l
                          (sightings ascii_lower (example_nlp example_text) c))))
           \<and> distinct (map fst (first_seen (sightings_of l
                 (sightings ascii_lower (example_nlp example_text) c))))
           \<and> fst ` set (first_seen (sightings_of l
                 (sightings ascii_lower (example_nlp example_text) c)))
               = fst ` set (sightings_of l (sightings ascii_lower (example_nlp example_text) c))
           \<and> subseq (first_seen (sightings_of l
                 (sightings ascii_lower (example_nlp example_text) c)))
                 (sightings_of l (sightings ascii_lower (example_nlp example_text) c))"
    by (elim exE conjE)
  from a [rule_format, OF c, of ?h]
  have "map phrase (filter (\<lambda>e. tag e = ?h) (occurrences_of NOUN r))
      = map (\<lambda>(s, w). trim_sentence_with_occurrence ascii_lower s w 20)
          (first_seen (sightings_of ?h (sightings ascii_lower (example_nlp example_text) NOUN)))"
    using ne by (simp only: if_False)
  then have "map phrase (filter (\<lambda>e. tag e = ?h) (r_noun_occurrences r))
      = [codepoints ''Der Hund jagt den Hund.'', codepoints ''Der kleine Hund rennt.'']"
    unfolding fs by (simp add: t1 t2)
  with r have "\<exists>r. extract_pos_tags example_nlp ascii_lower example_text = Inr r
        \<and> map phrase (filter (\<lambda>e. tag e = codepoints ''hund'') (r_noun_occurrences r))
            = [codepoints ''Der Hund jagt den Hund.'', codepoints ''Der kleine Hund rennt.'']"
    by (intro exI [of _ r] conjI)
  with c so show ?thesis by (intro conjI)
qed

text \<open>
  C9. The extractor returns a result whose three lemma sequences are sorted (strings are
  ordered lexicographically by code point) and free of duplicates, and whose three
  occurrence lists are sorted by lemma: the entries of a lemma are contiguous and the
  lemmas ascend.
\<close>

theorem result_sorted:
  "\<exists>r. extract_pos_tags nlp lower text = Inr r
     \<and> sorted (r_nouns r) \<and> distinct (r_nouns r)
     \<and> sorted (r_verbs r) \<and> distinct (r_verbs r)
     \<and> sorted (r_adjectives r) \<and> distinct (r_adjectives r)
     \<and> sorted (map tag (r_noun_occurrences r))
     \<and> sorted (map tag (r_verb_occurrences r))
     \<and> sorted (map tag (r_adjective_occurrences r))"
proof (cases "py_strip text = []")
  case True
  then show ?thesis by (simp add: extract_blank_eq empty_result_def)
next
  case False
  then show ?thesis by (simp add: extract_nonblank grouped_sorted)
qed

text \<open>
  C10. The extractor returns a result in which, for each category, the lemmas of the
  lemma sequence are exactly the lemmas that have an entry in the occurrence list; the
  entries of the three lists carry the keys \<open>noun\<close>, \<open>infinitive\<close> and \<open>adjective\<close>.
\<close>

theorem lemmas_match_occurrences:
  "\<exists>r. extract_pos_tags nlp lower text = Inr r
     \<and> set (r_nouns r) = tag ` set (r_noun_occurrences r)
     \<and> set (r_verbs r) = tag ` set (r_verb_occurrences r)
     \<and> set (r_adjectives r) = tag ` set (r_adjective_occurrences r)
     \<and> (\<forall>e\<in>set (r_noun_occurrences r). tag_key e = ''noun'')
     \<and> (\<forall>e\<in>set (r_verb_occurrences r). tag_key e = ''infinitive'')
     \<and> (\<forall>e\<in>set (r_adjective_occurrences r). tag_key e = ''adjective'')"
proof (cases "py_strip text = []")
  case True
  then show ?thesis by (simp add: extract_blank_eq empty_result_def)
next
  case False
  then show ?thesis by (simp add: extract_nonblank grouped_tags grouped_key)
qed

theorem lemmas_match_occurrences_witness:
  "\<exists>r. extract_pos_tags example_nlp ascii_lower example_text = Inr r
     \<and> set (r_nouns r) = {codepoints ''hund''}
     \<and> tag ` set (r_noun_occurrences r) = {codepoints ''hund''}"
proof -
  have ne: "py_strip example_text \<noteq> []"
    by (simp add: example_text_nonblank) (simp add: example_text_def codepoints_def)
  from lemmas_match_occurrences [of example_nlp ascii_lower example_text]
  obtain r where r: "extract_pos_tags example_nlp ascii_lower example_text = Inr r"
    and n: "set (r_nouns r) = tag ` set (r_noun_occurrences r)"
    by (elim exE conjE)
  have "r_nouns r = sorted_list_of_set (fst ` set (sightings ascii_lower example_doc NOUN))"
    using r by (auto simp: extract_nonblank [OF ne] example_nlp_def)
  then have "set (r_nouns r) = {codepoints ''hund''}"
    by (simp add: example_sightings_NOUN)
  with r n show ?thesis by (intro exI [of _ r]) simp
qed

lemma example_text_ne: "example_text \<noteq> []"
  by (simp add: example_text_def codepoints_def)

lemma padded_text_differs: "padded_text \<noteq> example_text"
  by (simp add: padded_text_def example_text_def codepoints_def)

lemma padded_text_strip: "py_strip padded_text = example_text"
  by (simp add: padded_text_def py_strip_def isspace_def codepoints_def example_text_def)

lemma padded_text_extract:
  "extract_pos_tags example_nlp ascii_lower padded_text = Inr empty_result"
proof -
  have rs: "py_strip padded_text \<noteq> []"
    by (simp only: padded_text_strip example_text_ne not_False_eq_True)
  show ?thesis
    using padded_text_differs
    by (simp add: extract_nonblank [OF rs] example_nlp_def sightings_def sightings_from_def
        List.map_filter_simps grouped_occurrences_def empty_result_def)
qed

lemma main_not_json:
  assumes "input_data \<noteq> []" "json_loads input_data = None"
  shows "main json_loads nlp lower input_data =
     (if py_strip input_data = [] then Rejected ''Transcript is empty''
      else (case extract_pos_tags nlp lower (py_strip input_data) of
              Inl e \<Rightarrow> Failed e
            | Inr r \<Rightarrow> Printed r))"
  using assms by (simp add: main_def)

lemma json_loads_raising_None: "json_loads_raising s = None"
  by (simp add: json_loads_raising_def)

lemma padded_text_ne: "padded_text \<noteq> []"
  by (simp add: padded_text_def codepoints_def)

lemma main_raw_example:
  assumes "extract_pos_tags example_nlp ascii_lower example_text = Inr r"
  shows "main json_loads_raising example_nlp ascii_lower padded_text = Printed r"
  using example_text_ne assms
  by (simp add: main_not_json [where json_loads = json_loads_raising,
        OF padded_text_ne json_loads_raising_None] padded_text_strip)

lemma example_nouns:
  assumes "extract_pos_tags example_nlp ascii_lower example_text = Inr r"
  shows "r_nouns r = [codepoints ''hund'']"
proof -
  have ne: "py_strip example_text \<noteq> []"
    by (simp only: example_text_nonblank example_text_ne not_False_eq_True)
  have "r_nouns r = sorted_list_of_set (fst ` set (sightings ascii_lower example_doc NOUN))"
    using assms by (auto simp: extract_nonblank [OF ne] example_nlp_def)
  then show ?thesis by (simp add: example_sightings_NOUN)
qed

text \<open>
  C6 as stated fails on the code: the raw input is stripped of leading and trailing
  whitespace before it is used. An input of two spaces is rejected as an empty
  transcript. The example text with a space before and after it is annotated as the
  example text itself, which the annotator knows, and not as the raw input, in which
  it finds nothing. And the raw text is the transcript only when \<^verbatim>\<open>json.loads\<close>
  raises: the input \<^verbatim>\<open>NaN\<close> is not JSON, yet it is read as a float, which has no
  \<^verbatim>\<open>get\<close>, and the run fails with an \<^verbatim>\<open>AttributeError\<close>.
\<close>

theorem main_strips_raw_input:
  "codepoints ''  '' \<noteq> []
   \<and> json_loads_raising (codepoints ''  '') = None
   \<and> main json_loads_raising example_nlp ascii_lower (codepoints ''  '')
       = Rejected ''Transcript is empty''
   \<and> padded_text \<noteq> []
   \<and> json_loads_raising padded_text = None
   \<and> main json_loads_raising example_nlp ascii_lower padded_text
       \<noteq> (case extract_pos_tags example_nlp ascii_lower padded_text of
            Inl e \<Rightarrow> Failed e
          | Inr r \<Rightarrow> Printed r)
   \<and> codepoints ''NaN'' \<noteq> []
   \<and> json_loads_nan (codepoints ''NaN'') = Some (JNumber True)
   \<and> main json_loads_nan example_nlp ascii_lower (codepoints ''NaN'') = Failed AttributeError"
proof -
  have nne: "codepoints ''NaN'' \<noteq> []" by (simp add: codepoints_def)
  have nj: "json_loads_nan (codepoints ''NaN'') = Some (JNumber True)"
    by (simp add: json_loads_nan_def)
  have m3: "main json_loads_nan example_nlp ascii_lower (codepoints ''NaN'') = Failed AttributeError"
    using nne by (simp add: main_def nj)
  have bne: "codepoints ''  '' \<noteq> []" by (simp add: codepoints_def)
  have b: "py_strip (codepoints ''  '') = []"
    by (simp add: py_strip_def isspace_def codepoints_def)
  have m1: "main json_loads_raising example_nlp ascii_lower (codepoints ''  '')
       = Rejected ''Transcript is empty''"
    by (simp add: main_not_json [where json_loads = json_loads_raising,
          OF bne json_loads_raising_None] b)
  obtain r where r: "extract_pos_tags example_nlp ascii_lower example_text = Inr r"
    using extract_total by blast
  have "r_nouns r \<noteq> r_nouns empty_result"
    by (simp add: example_nouns [OF r] empty_result_def)
  then have "r \<noteq> empty_result" by (rule contrapos_nn) (simp only:)
  then have pr: "Printed r \<noteq>
      (case Inr empty_result of Inl e \<Rightarrow> Failed e | Inr r \<Rightarrow> Printed r)"
    by simp
  have m2: "main json_loads_raising example_nlp ascii_lower padded_text
       \<noteq> (case extract_pos_tags example_nlp ascii_lower padded_text of
            Inl e \<Rightarrow> Failed e
          | Inr r \<Rightarrow> Printed r)"
    unfolding main_raw_example [OF r] padded_text_extract by (rule pr)
  from bne json_loads_raising_None m1 padded_text_ne json_loads_raising_None m2 nne nj m3
  show ?thesis by (intro conjI)
qed

text \<open>
  C6, amended. For a non-empty input on which \<^verbatim>\<open>json.loads\<close> raises
  \<^verbatim>\<open>JSONDecodeError\<close> (\<open>json_loads input_data = None\<close>) the transcript is the
  input stripped of leading and trailing whitespace. When that is empty, the run is
  rejected with \<open>Transcript is empty\<close>; otherwise the stripped text goes to the
  extractor, which returns a result, and the result is printed. Nothing is said of an
  input that \<^verbatim>\<open>json.loads\<close> accepts, whether it is JSON or not.
\<close>

theorem main_raw_text:
  assumes "input_data \<noteq> []" and "json_loads input_data = None"
  shows "(py_strip input_data = [] \<longrightarrow>
            main json_loads nlp lower input_data = Rejected ''Transcript is empty'')
       \<and> (py_strip input_data \<noteq> [] \<longrightarrow>
            (\<exists>r. extract_pos_tags nlp lower (py_strip input_data) = Inr r
               \<and> main json_loads nlp lower input_data = Printed r))"
proof (intro conjI impI)
  note m = main_not_json [where json_loads = json_loads and input_data = input_data, OF assms]
  assume "py_strip input_data = []"
  then show "main json_loads nlp lower input_data = Rejected ''Transcript is empty''"
    by (simp add: m)
next
  note m = main_not_json [where json_loads = json_loads and input_data = input_data, OF assms]
  assume ne: "py_strip input_data \<noteq> []"
  obtain r where r: "extract_pos_tags nlp lower (py_strip input_data) = Inr r"
    using extract_total by blast
  then have "main json_loads nlp lower input_data = Printed r"
    using ne by (simp add: m)
  with r show "\<exists>r. extract_pos_tags nlp lower (py_strip input_data) = Inr r
      \<and> main json_loads nlp lower input_data = Printed r"
    by (intro exI [of _ r] conjI)
qed

theorem main_raw_text_witness:
  "padded_text \<noteq> []
   \<and> json_loads_raising padded_text = None
   \<and> py_strip padded_text = example_text
   \<and> example_text \<noteq> []
   \<and> (\<exists>r. extract_pos_tags example_nlp ascii_lower example_text = Inr r
        \<and> main json_loads_raising example_nlp ascii_lower padded_text = Printed r)"
proof -
  note t = main_raw_text [where json_loads = json_loads_raising and nlp = example_nlp
      and lower = ascii_lower, OF padded_text_ne json_loads_raising_None,
      unfolded padded_text_strip]
  from t [THEN conjunct2, THEN mp, OF example_text_ne]
  have "\<exists>r. extract_pos_tags example_nlp ascii_lower example_text = Inr r
      \<and> main json_loads_raising example_nlp ascii_lower padded_text = Printed r" .
  with padded_text_ne json_loads_raising_None padded_text_strip example_text_ne show ?thesis
    by (intro conjI)
qed

end
